theory Spec2Isabelle
  imports Main "HOL-Library.Word"
begin

unbundle bit_operations_syntax

section \<open>Buffers and the fixed-width writers of \<^verbatim>\<open>src/index.js\<close>\<close>

text \<open>
  A Node \<^verbatim>\<open>Buffer\<close> is a list of bytes. JavaScript numbers that the code
  computes with (time stamps, offsets, lengths, stream ids) are integers here.
  \<^verbatim>\<open>writeUInt8\<close>, \<^verbatim>\<open>writeUInt16LE\<close> and \<^verbatim>\<open>writeUInt32LE\<close> throw a range
  error when the value does not fit the field; every exception of the source is a
  value of the type \<open>error\<close>.
\<close>

type_synonym byte = "8 word"
type_synonym buffer = "byte list"

datatype error =
    RangeError
  | TypeError
  | TooManyStreams
  | JSONParseError
  | CRCValidationError
  | HeaderParseError
  | WriteAfterEnd

definition writeUInt8 :: "int \<Rightarrow> error + buffer" where
  "writeUInt8 v = (if 0 \<le> v \<and> v \<le> 255 then Inr [word_of_int v] else Inl RangeError)"

definition writeUInt16LE :: "int \<Rightarrow> error + buffer" where
  "writeUInt16LE v =
     (if 0 \<le> v \<and> v \<le> 65535
      then Inr [word_of_int (v mod 256), word_of_int (v div 256)]
      else Inl RangeError)"

definition writeUInt32LE :: "int \<Rightarrow> error + buffer" where
  "writeUInt32LE v =
     (if 0 \<le> v \<and> v \<le> 4294967295
      then Inr [word_of_int (v mod 256), word_of_int (v div 256 mod 256),
                word_of_int (v div 65536 mod 256), word_of_int (v div 16777216)]
      else Inl RangeError)"

definition mkBuf8 :: "int \<Rightarrow> error + buffer" where
  "mkBuf8 d = writeUInt8 d"

definition mkBuf16le :: "int \<Rightarrow> error + buffer" where
  "mkBuf16le d = writeUInt16LE d"

definition mkBuf32le :: "int \<Rightarrow> error + buffer" where
  "mkBuf32le d = writeUInt32LE d"

section \<open>Frame encoders\<close>

text \<open>
  \<^verbatim>\<open>mkStreamChunkBuf\<close>: the four header bytes of a data frame, written after the
  splitting loop has run (\<open>mkStart\<close>), and the function itself with its
  \<^verbatim>\<open>while (chunk.length > 255)\<close> loop (\<open>splitTail\<close>), which calls the function
  again on each 255-byte tail slice with offset 0 and puts the result in front of
  the continuation buffer.
\<close>

definition mkStart :: "int \<Rightarrow> int \<Rightarrow> int \<Rightarrow> error + buffer" where
  "mkStart streamId offset len =
     (case writeUInt8 streamId of
        Inl e \<Rightarrow> Inl e
      | Inr b0 \<Rightarrow>
          (case writeUInt16LE offset of
             Inl e \<Rightarrow> Inl e
           | Inr b1 \<Rightarrow>
               (case writeUInt8 len of
                  Inl e \<Rightarrow> Inl e
                | Inr b3 \<Rightarrow> Inr (b0 @ b1 @ b3))))"

function mkStreamChunkBuf :: "buffer \<Rightarrow> int \<Rightarrow> int \<Rightarrow> error + buffer"
  and splitTail :: "buffer \<Rightarrow> int \<Rightarrow> buffer \<Rightarrow> error + (buffer \<times> buffer)"
where
  "mkStreamChunkBuf chunk streamId offset =
     (case splitTail chunk streamId [] of
        Inl e \<Rightarrow> Inl e
      | Inr (chunk', continuationBuf) \<Rightarrow>
          (case mkStart streamId offset (int (length chunk')) of
             Inl e \<Rightarrow> Inl e
           | Inr start \<Rightarrow> Inr (start @ chunk' @ continuationBuf)))"
| "splitTail chunk streamId continuationBuf =
     (if length chunk > 255
      then (case mkStreamChunkBuf (drop (length chunk - 255) chunk) streamId 0 of
              Inl e \<Rightarrow> Inl e
            | Inr b \<Rightarrow>
                splitTail (take (length chunk - 255) chunk) streamId (b @ continuationBuf))
      else Inr (chunk, continuationBuf))"
  by pat_completeness auto
termination
  by (relation "measure (\<lambda>x. case x of
          Inl (chunk, _, _) \<Rightarrow> 2 * length chunk + 1
        | Inr (chunk, _, _) \<Rightarrow> 2 * length chunk)") auto

definition mkStreamCrcBuf :: "int \<Rightarrow> int \<Rightarrow> error + buffer" where
  "mkStreamCrcBuf offset crc =
     (case writeUInt16LE offset of
        Inl e \<Rightarrow> Inl e
      | Inr b1 \<Rightarrow>
          (case writeUInt16LE crc of
             Inl e \<Rightarrow> Inl e
           | Inr b3 \<Rightarrow> Inr (0 # b1 @ b3)))"

text \<open>
  The data-frame layout in the words of the specification: one frame is the stream
  id, the 16-bit offset, the length byte and the payload; a long payload is cut
  from the tail in 255-byte slices until at most 255 bytes remain.
\<close>

definition dataFrame :: "int \<Rightarrow> int \<Rightarrow> buffer \<Rightarrow> buffer" where
  "dataFrame streamId offset payload =
     word_of_int streamId # word_of_int (offset mod 256) # word_of_int (offset div 256)
       # word_of_int (int (length payload)) # payload"

function tailSlices :: "buffer \<Rightarrow> buffer list" where
  "tailSlices chunk =
     (if length chunk > 255
      then tailSlices (take (length chunk - 255) chunk) @ [drop (length chunk - 255) chunk]
      else [chunk])"
  by pat_completeness auto
termination
  by (relation "measure length") auto

section \<open>The multiplexer\<close>

definition protocolVersion :: int where
  "protocolVersion = 1"

definition streamIdOffset :: nat where
  "streamIdOffset = 1"

definition thenE :: "error + 'a \<Rightarrow> ('a \<Rightarrow> error + 'b) \<Rightarrow> error + 'b" where
  "thenE r f = (case r of Inl e \<Rightarrow> Inl e | Inr v \<Rightarrow> f v)"

fun sequenceE :: "(error + 'a) list \<Rightarrow> error + 'a list" where
  "sequenceE [] = Inr []"
| "sequenceE (r # rs) = thenE r (\<lambda>v. thenE (sequenceE rs) (\<lambda>vs. Inr (v # vs)))"

text \<open>
  \<^verbatim>\<open>JSON.stringify({ id: k })\<close> is the ASCII text \<^verbatim>\<open>{"id":k}\<close> with \<open>k\<close> in
  decimal.
\<close>

function decimal :: "nat \<Rightarrow> buffer" where
  "decimal n = (if n < 10 then [of_nat (48 + n)] else decimal (n div 10) @ [of_nat (48 + n mod 10)])"
  by pat_completeness auto
termination
  by (relation "measure id") auto

definition jsonStringifyMeta :: "nat \<Rightarrow> buffer" where
  "jsonStringifyMeta k = [0x7B, 0x22, 0x69, 0x64, 0x22, 0x3A] @ decimal k @ [0x7D]"

definition mkStreamMetaBuf :: "nat \<Rightarrow> error + buffer" where
  "mkStreamMetaBuf k =
     (let payload = jsonStringifyMeta k in
      thenE (writeUInt8 (int k)) (\<lambda>b0.
      thenE (writeUInt32LE (int (length payload))) (\<lambda>b1.
      Inr (b0 @ b1 @ payload))))"

text \<open>
  \<^verbatim>\<open>mkBufFloatLe\<close> writes the IEEE-754 single that is nearest to its argument. The
  rounding of a JavaScript number to a single is a parameter \<open>float32\<close> of the
  model (the bits of the single); the four bytes are its little-endian image.
\<close>

definition mkBufFloatLe :: "32 word \<Rightarrow> buffer" where
  "mkBufFloatLe w = [ucast w, ucast (drop_bit 8 w), ucast (drop_bit 16 w), ucast (drop_bit 24 w)]"

text \<open>
  The state of one \<^verbatim>\<open>multiplexStreams\<close> call: the buffers passed to
  \<^verbatim>\<open>multiplexedStream.write\<close> so far (\<open>out\<close>, one entry per call), whether the
  holder of the output stream has ended it, the closure variables \<^verbatim>\<open>lastMsgTime\<close>,
  \<^verbatim>\<open>crc\<close>, \<^verbatim>\<open>crcProcessedBytes\<close>, \<^verbatim>\<open>streamsAlive\<close> and \<^verbatim>\<open>canWrite\<close>, which
  sources still have their listeners attached, and whether the one-second interval
  is set. The checksum function \<^verbatim>\<open>crc16(buf, crc = 0)\<close> of \<^verbatim>\<open>./crc16\<close> is a
  parameter \<open>crc16\<close> of every definition that calls it.
\<close>

record mstate =
  out :: "buffer list"
  outEnded :: bool
  lastMsgTime :: int
  crc :: "16 word"
  crcProcessedBytes :: int
  streamsAlive :: int
  canWrite :: bool
  listening :: "bool list"
  ticking :: bool

definition multiplexStreams ::
  "(buffer \<Rightarrow> 16 word \<Rightarrow> 16 word) \<Rightarrow> (int \<Rightarrow> 32 word) \<Rightarrow> nat \<Rightarrow> int \<Rightarrow> error + mstate" where
  "multiplexStreams crc16 float32 n now =
     (if n > 254 then Inl TooManyStreams
      else
        thenE (mkBuf8 (int n)) (\<lambda>countBuf.
        thenE (sequenceE (map (\<lambda>i. mkStreamMetaBuf (i + streamIdOffset)) [0..<n])) (\<lambda>metaBufs.
          let headerBufs = countBuf # mkBufFloatLe (float32 now) # metaBufs;
              headerLen = foldl (\<lambda>sum b. sum + int (length b)) (1 + 4 + 2) headerBufs;
              headerBuf = concat headerBufs
          in
            thenE (mkBuf8 protocolVersion) (\<lambda>versionBuf.
            thenE (mkBuf32le headerLen) (\<lambda>lenBuf.
            thenE (mkBuf16le (uint (crc16 headerBuf 0))) (\<lambda>crcBuf.
              Inr \<lparr> out = [versionBuf, lenBuf, headerBuf, crcBuf],
                    outEnded = False,
                    lastMsgTime = now,
                    crc = 0,
                    crcProcessedBytes = 0,
                    streamsAlive = int n,
                    canWrite = True,
                    listening = replicate n True,
                    ticking = True \<rparr>))))))"

definition maybeSendCrc ::
  "(buffer \<Rightarrow> 16 word \<Rightarrow> 16 word) \<Rightarrow> int \<Rightarrow> int \<Rightarrow> int \<Rightarrow> mstate \<Rightarrow> error + mstate" where
  "maybeSendCrc crc16 maxDataGap crcBufferSize now st =
     (if \<not> canWrite st then Inr st
      else
        let diff = now - lastMsgTime st in
        if diff > maxDataGap \<or> crcProcessedBytes st > crcBufferSize \<or> streamsAlive st = 0
        then
          thenE (mkStreamCrcBuf diff (uint (crc st))) (\<lambda>buf.
            Inr (st \<lparr> lastMsgTime := now,
                      crcProcessedBytes := 0,
                      out := out st @ [buf],
                      crc := crc16 buf (crc st) \<rparr>))
        else Inr st)"

text \<open>
  The listener that \<^verbatim>\<open>makeListener id\<close> returns. It reads the clock once itself
  (\<open>now\<close>) and \<^verbatim>\<open>maybeSendCrc\<close> reads it again (\<open>now'\<close>).
\<close>

definition makeListener ::
  "(buffer \<Rightarrow> 16 word \<Rightarrow> 16 word) \<Rightarrow> int \<Rightarrow> int \<Rightarrow> nat \<Rightarrow> buffer \<Rightarrow> int \<Rightarrow> int \<Rightarrow>
   mstate \<Rightarrow> error + mstate" where
  "makeListener crc16 maxDataGap crcBufferSize i data now now' st =
     (if \<not> canWrite st then Inr st
      else
        let diff = now - lastMsgTime st in
        thenE (mkStreamChunkBuf data (int (i + streamIdOffset)) diff) (\<lambda>buf.
          maybeSendCrc crc16 maxDataGap crcBufferSize now'
            (st \<lparr> lastMsgTime := now,
                  out := out st @ [buf],
                  crc := crc16 buf (crc st),
                  crcProcessedBytes := crcProcessedBytes st + int (length buf) \<rparr>)))"

definition finishStream ::
  "(buffer \<Rightarrow> 16 word \<Rightarrow> 16 word) \<Rightarrow> int \<Rightarrow> int \<Rightarrow> nat \<Rightarrow> int \<Rightarrow> mstate \<Rightarrow> error + mstate" where
  "finishStream crc16 maxDataGap crcBufferSize i now st =
     thenE (maybeSendCrc crc16 maxDataGap crcBufferSize now
              (st \<lparr> streamsAlive := streamsAlive st - 1 \<rparr>)) (\<lambda>st'.
       Inr (st' \<lparr> listening := (listening st')[i := False] \<rparr>))"

text \<open>
  \<^verbatim>\<open>stop\<close> runs when the output stream emits \<^verbatim>\<open>end\<close> or \<^verbatim>\<open>finish\<close>: it clears
  \<^verbatim>\<open>canWrite\<close> and the interval and calls \<^verbatim>\<open>finishStream\<close> for every source, in
  order. The clock is not read there, since \<^verbatim>\<open>maybeSendCrc\<close> returns before it
  does; the model passes the time of the last message.
\<close>

fun finishAll ::
  "(buffer \<Rightarrow> 16 word \<Rightarrow> 16 word) \<Rightarrow> int \<Rightarrow> int \<Rightarrow> nat list \<Rightarrow> mstate \<Rightarrow> error + mstate" where
  "finishAll crc16 maxDataGap crcBufferSize [] st = Inr st"
| "finishAll crc16 maxDataGap crcBufferSize (i # is) st =
     thenE (finishStream crc16 maxDataGap crcBufferSize i (lastMsgTime st) st)
       (finishAll crc16 maxDataGap crcBufferSize is)"

definition stop ::
  "(buffer \<Rightarrow> 16 word \<Rightarrow> 16 word) \<Rightarrow> int \<Rightarrow> int \<Rightarrow> mstate \<Rightarrow> error + mstate" where
  "stop crc16 maxDataGap crcBufferSize st =
     finishAll crc16 maxDataGap crcBufferSize [0..<length (listening st)]
       (st \<lparr> canWrite := False, ticking := False \<rparr>)"

text \<open>
  What can happen to a multiplexer: source \<open>i\<close> emits a buffer, source \<open>i\<close>
  finishes, the interval fires, the holder of the output stream ends it
  (\<open>EndOutput\<close>), or the ended output stream emits \<^verbatim>\<open>finish\<close> or \<^verbatim>\<open>end\<close>
  (\<open>OutputFinish\<close>), which runs \<^verbatim>\<open>stop\<close>. Ending the output changes none of the
  closure variables: until \<^verbatim>\<open>stop\<close> has run the listeners and the interval go on
  framing and calling \<^verbatim>\<open>write\<close>, and the stream refuses what it is passed after
  it has been ended. An event that cannot happen leaves the state as it is: a
  source whose listeners have been removed is not heard, a cleared interval does
  not fire, and a stream that has not been ended does not emit \<^verbatim>\<open>finish\<close>. An
  exception ends the run.
\<close>

datatype event =
    Data nat buffer int int
  | Finish nat int
  | Tick int
  | EndOutput
  | OutputFinish

fun muxStep ::
  "(buffer \<Rightarrow> 16 word \<Rightarrow> 16 word) \<Rightarrow> int \<Rightarrow> int \<Rightarrow> event \<Rightarrow> mstate \<Rightarrow> error + mstate" where
  "muxStep crc16 maxDataGap crcBufferSize (Data i data now now') st =
     (if i < length (listening st) \<and> listening st ! i
      then makeListener crc16 maxDataGap crcBufferSize i data now now' st
      else Inr st)"
| "muxStep crc16 maxDataGap crcBufferSize (Finish i now) st =
     (if i < length (listening st) \<and> listening st ! i
      then finishStream crc16 maxDataGap crcBufferSize i now st
      else Inr st)"
| "muxStep crc16 maxDataGap crcBufferSize (Tick now) st =
     (if ticking st then maybeSendCrc crc16 maxDataGap crcBufferSize now st else Inr st)"
| "muxStep crc16 maxDataGap crcBufferSize EndOutput st = Inr (st \<lparr> outEnded := True \<rparr>)"
| "muxStep crc16 maxDataGap crcBufferSize OutputFinish st =
     (if outEnded st then stop crc16 maxDataGap crcBufferSize st else Inr st)"

fun muxRun ::
  "(buffer \<Rightarrow> 16 word \<Rightarrow> 16 word) \<Rightarrow> int \<Rightarrow> int \<Rightarrow> event list \<Rightarrow> mstate \<Rightarrow> error + mstate" where
  "muxRun crc16 maxDataGap crcBufferSize [] st = Inr st"
| "muxRun crc16 maxDataGap crcBufferSize (ev # evs) st =
     thenE (muxStep crc16 maxDataGap crcBufferSize ev st)
       (muxRun crc16 maxDataGap crcBufferSize evs)"

section \<open>The decoders of \<^verbatim>\<open>./parser\<close>\<close>

text \<open>
  \<^verbatim>\<open>buf.slice(start, end)\<close> and \<^verbatim>\<open>buf.slice(start)\<close> of a Node buffer: a negative
  index counts from the end, and both indices are clamped to the buffer.
\<close>

definition jsIndex :: "int \<Rightarrow> nat \<Rightarrow> nat" where
  "jsIndex i n = (if i < 0 then nat (max 0 (int n + i)) else min (nat i) n)"

definition slice :: "buffer \<Rightarrow> int \<Rightarrow> int \<Rightarrow> buffer" where
  "slice b s e =
     (let i = jsIndex s (length b); j = jsIndex e (length b) in take (j - i) (drop i b))"

definition sliceFrom :: "buffer \<Rightarrow> int \<Rightarrow> buffer" where
  "sliceFrom b s = drop (jsIndex s (length b)) b"

record streamMeta =
  m_streamId :: nat
  m_metaString :: buffer

record head =
  h_protocolVersion :: nat
  h_headerLen :: int
  h_numStreams :: nat
  h_startTime :: buffer
  h_meta :: "streamMeta list"
  h_crc :: "16 word"

text \<open>
  A decoded frame: the stream id and the offset, and either the checksum of a control
  frame (\<^verbatim>\<open>c.data.crc\<close>) or the payload of a data frame (\<^verbatim>\<open>c.data.data\<close>, of
  length \<^verbatim>\<open>c.data.length\<close>). A control frame is the one whose stream id is 0.
\<close>

datatype chunk = ControlChunk int "16 word" | DataChunk nat int buffer

fun c_streamId :: "chunk \<Rightarrow> nat" where
  "c_streamId (ControlChunk offset w) = 0"
| "c_streamId (DataChunk sid offset d) = sid"

fun c_offset :: "chunk \<Rightarrow> int" where
  "c_offset (ControlChunk offset w) = offset"
| "c_offset (DataChunk sid offset d) = offset"

fun c_crc :: "chunk \<Rightarrow> 16 word option" where
  "c_crc (ControlChunk offset w) = Some w"
| "c_crc (DataChunk sid offset d) = None"

fun c_data :: "chunk \<Rightarrow> buffer" where
  "c_data (ControlChunk offset w) = []"
| "c_data (DataChunk sid offset d) = d"

definition readUInt16LE :: "byte \<Rightarrow> byte \<Rightarrow> nat" where
  "readUInt16LE lo hi = unat lo + 256 * unat hi"

definition readUInt32LE :: "byte \<Rightarrow> byte \<Rightarrow> byte \<Rightarrow> byte \<Rightarrow> nat" where
  "readUInt32LE b0 b1 b2 b3 = unat b0 + 256 * unat b1 + 65536 * unat b2 + 16777216 * unat b3"

text \<open>
  Modelled from the spec: the stream-meta reader of \<^verbatim>\<open>./parser\<close>, which is not among
  the sources. One record is the stream id (1 byte), the metadata length (4 bytes,
  little-endian) and that many bytes of metadata; the reader fails when the
  buffer ends before the record does. \<open>parseMetas k\<close> reads \<open>k\<close> records and
  returns what is left of the buffer.
\<close>

fun parseMetas :: "nat \<Rightarrow> buffer \<Rightarrow> (streamMeta list \<times> buffer) option" where
  "parseMetas 0 buf = Some ([], buf)"
| "parseMetas (Suc k) (sid # l0 # l1 # l2 # l3 # rest) =
     (let len = readUInt32LE l0 l1 l2 l3 in
      if length rest < len then None
      else
        (case parseMetas k (drop len rest) of
           None \<Rightarrow> None
         | Some (ms, rest') \<Rightarrow>
             Some (\<lparr> m_streamId = unat sid, m_metaString = take len rest \<rparr> # ms, rest')))"
| "parseMetas (Suc k) buf = None"

text \<open>
  Modelled from the spec: \<^verbatim>\<open>headParser.parse\<close> of \<^verbatim>\<open>./parser\<close>, which is not
  among the sources. The header is the version (1 byte), the header length
  (4 bytes), the stream count (1 byte), the initial time stamp (4 bytes), one
  stream-meta record per stream and the checksum (2 bytes), little-endian
  throughout. Decoding fails when the buffer ends before the header does or when
  the declared length exceeds the bytes available; the checksum is read, not
  checked.
\<close>

fun headParser_parse :: "buffer \<Rightarrow> head option" where
  "headParser_parse (v # l0 # l1 # l2 # l3 # n # t0 # t1 # t2 # t3 # rest) =
     (case parseMetas (unat n) rest of
        None \<Rightarrow> None
      | Some (ms, rest') \<Rightarrow>
          (case rest' of
             c0 # c1 # _ \<Rightarrow>
               if readUInt32LE l0 l1 l2 l3 > 10 + length rest then None
               else Some \<lparr> h_protocolVersion = unat v,
                           h_headerLen = int (readUInt32LE l0 l1 l2 l3),
                           h_numStreams = unat n,
                           h_startTime = [t0, t1, t2, t3],
                           h_meta = ms,
                           h_crc = word_of_nat (readUInt16LE c0 c1) \<rparr>
           | _ \<Rightarrow> None))"
| "headParser_parse buf = None"

text \<open>
  Modelled from the spec: \<^verbatim>\<open>wrapFnException\<close> of \<^verbatim>\<open>./errors\<close>, which is not among
  the sources. The wrapped function throws an error of the given class whenever
  the function it wraps throws; the \<^verbatim>\<open>name\<close> of an error is the name of its class,
  which is what the handler of \<^verbatim>\<open>parseBufferWrapped\<close> compares.
\<close>

definition wrapFnException :: "('a \<Rightarrow> 'b option) \<Rightarrow> error \<Rightarrow> 'a \<Rightarrow> error + 'b" where
  "wrapFnException fn err x = (case fn x of None \<Rightarrow> Inl err | Some y \<Rightarrow> Inr y)"

definition headParserWrapped :: "buffer \<Rightarrow> error + head" where
  "headParserWrapped = wrapFnException headParser_parse HeaderParseError"

text \<open>
  Modelled from the spec: \<^verbatim>\<open>streamChunkParser.parse\<close> of \<^verbatim>\<open>./parser\<close>, which is
  not among the sources. A frame starts with the stream id (1 byte) and the offset
  (2 bytes). Stream id 0 is a control frame, with a 2-byte checksum (5 bytes in
  all); any other id is a data frame, with a length byte and that many bytes of
  payload. Decoding fails when the buffer does not hold the whole frame.
\<close>

fun streamChunkParser_parse :: "buffer \<Rightarrow> chunk option" where
  "streamChunkParser_parse (sid # o0 # o1 # x # rest) =
     (if sid = 0
      then (case rest of
              [] \<Rightarrow> None
            | y # _ \<Rightarrow>
                Some (ControlChunk (int (readUInt16LE o0 o1))
                        (word_of_nat (readUInt16LE x y))))
      else if length rest < unat x then None
      else Some (DataChunk (unat sid) (int (readUInt16LE o0 o1)) (take (unat x) rest)))"
| "streamChunkParser_parse buf = None"

section \<open>The demultiplexer\<close>

text \<open>
  A sink is one of the \<^verbatim>\<open>PassThrough\<close> streams that \<^verbatim>\<open>parseBuffer\<close> creates: the
  buffers written to it, the \<^verbatim>\<open>error\<close> events emitted on it, and whether it has
  been ended.
\<close>

record sink =
  written :: "buffer list"
  errorEvents :: "error list"
  ended :: bool

definition newPassThrough :: sink where
  "newPassThrough = \<lparr> written = [], errorEvents = [], ended = False \<rparr>"

datatype 'j cbcall = CbError error | CbReady "nat list" "'j list"

text \<open>
  The state of one \<^verbatim>\<open>demultiplexStream\<close> call. \<open>sinks\<close> holds every stream object
  created so far, and a stream is named by its index there. \<open>streamDict\<close> is the
  object that \<^verbatim>\<open>zipObject\<close> builds: a list of key and stream, a later entry for a
  key replacing an earlier one. \<open>chunkProcessor\<close> is the delay of the pending
  \<^verbatim>\<open>setTimeout\<close>, if one is pending; \<open>immediates\<close> counts the pending
  \<^verbatim>\<open>setImmediate(parseBufferWrapped)\<close> calls; \<open>callbacks\<close> records the calls of the
  caller's callback. \<open>errorListeners\<close> holds the streams on whose \<^verbatim>\<open>error\<close> event
  the consumer has put a listener; a new stream has none. The input is taken to be
  a stream with a writable side, as \<^verbatim>\<open>demultiplexBuffer\<close> makes it: \<open>inputEnded\<close>
  records that it has been ended, by \<^verbatim>\<open>stream.end()\<close> here or by whoever feeds it,
  and \<open>inputFinished\<close> that it has emitted \<^verbatim>\<open>finish\<close> since. The variable \<^verbatim>\<open>head\<close>
  is only read where it is assigned and is not part of the state.
\<close>

record 'j dstate =
  buffered :: buffer
  parsedHead :: bool
  sinks :: "sink list"
  streamDict :: "(nat \<times> nat) list"
  unprocessedChunks :: "chunk list"
  chunksCrc :: "16 word"
  chunkProcessor :: "int option"
  lastChunkSent :: "int option"
  immediates :: nat
  callbacks :: "'j cbcall list"
  errorListeners :: "nat set"
  inputEnded :: bool
  inputFinished :: bool

definition demultiplexStream :: "'j dstate" where
  "demultiplexStream =
     \<lparr> buffered = [], parsedHead = False, sinks = [], streamDict = [],
       unprocessedChunks = [], chunksCrc = 0, chunkProcessor = None,
       lastChunkSent = None, immediates = 0, callbacks = [], errorListeners = {},
       inputEnded = False, inputFinished = False \<rparr>"

definition zipObject :: "nat list \<Rightarrow> nat list \<Rightarrow> (nat \<times> nat) list" where
  "zipObject ks vs = zip ks vs"

definition dictGet :: "(nat \<times> nat) list \<Rightarrow> nat \<Rightarrow> nat option" where
  "dictGet d k = map_of (rev d) k"

definition dictValues :: "(nat \<times> nat) list \<Rightarrow> nat list" where
  "dictValues d = map (\<lambda>k. the (dictGet d k)) (sort (remdups (map fst d)))"

definition sinkEmitError :: "error \<Rightarrow> sink \<Rightarrow> sink" where
  "sinkEmitError e s = s \<lparr> errorEvents := errorEvents s @ [e] \<rparr>"

definition sinkEnd :: "sink \<Rightarrow> sink" where
  "sinkEnd s = s \<lparr> ended := True \<rparr>"

definition sinkWrite :: "buffer \<Rightarrow> sink \<Rightarrow> sink" where
  "sinkWrite b s = s \<lparr> written := written s @ [b] \<rparr>"

definition updateSink :: "(sink \<Rightarrow> sink) \<Rightarrow> nat \<Rightarrow> 'j dstate \<Rightarrow> 'j dstate" where
  "updateSink f i st = st \<lparr> sinks := (sinks st)[i := f (sinks st ! i)] \<rparr>"

text \<open>
  \<^verbatim>\<open>s.emit('error', e)\<close> on stream \<open>i\<close>: the listeners of the event take the error;
  when there is none, \<^verbatim>\<open>emit\<close> throws the error at its caller. \<^verbatim>\<open>broadcastError\<close>
  walks the keys of the dictionary in order, so the first stream without a listener
  ends the walk with the exception.
\<close>

definition emitError :: "error \<Rightarrow> nat \<Rightarrow> 'j dstate \<Rightarrow> error option \<times> 'j dstate" where
  "emitError e i st =
     (if i \<in> errorListeners st then (None, updateSink (sinkEmitError e) i st)
      else (Some e, st))"

fun emitErrors :: "error \<Rightarrow> nat list \<Rightarrow> 'j dstate \<Rightarrow> error option \<times> 'j dstate" where
  "emitErrors e [] st = (None, st)"
| "emitErrors e (i # is) st =
     (case emitError e i st of
        (Some x, st') \<Rightarrow> (Some x, st')
      | (None, st') \<Rightarrow> emitErrors e is st')"

definition broadcastError :: "error \<Rightarrow> 'j dstate \<Rightarrow> error option \<times> 'j dstate" where
  "broadcastError e st = emitErrors e (dictValues (streamDict st)) st"

text \<open>
  \<^verbatim>\<open>s.write(b)\<close> on stream \<open>i\<close>. An ended stream does not take the buffer: it
  emits a write-after-end error on itself, which goes the way of every \<^verbatim>\<open>error\<close>
  event.
\<close>

definition streamWrite :: "buffer \<Rightarrow> nat \<Rightarrow> 'j dstate \<Rightarrow> error option \<times> 'j dstate" where
  "streamWrite b i st =
     (if ended (sinks st ! i) then emitError WriteAfterEnd i st
      else (None, updateSink (sinkWrite b) i st))"

definition endStreams :: "'j dstate \<Rightarrow> 'j dstate" where
  "endStreams st = fold (updateSink sinkEnd) (dictValues (streamDict st)) st"

definition processChunks :: "bool \<Rightarrow> int \<Rightarrow> 'j dstate \<Rightarrow> error option \<times> 'j dstate" where
  "processChunks useRealOffsets now st =
     (let st0 = st \<lparr> chunkProcessor := None \<rparr> in
      case unprocessedChunks st0 of
        [] \<Rightarrow> (None, st0)
      | chunk # rest \<Rightarrow>
          let chunkOffset = c_offset chunk in
          if lastChunkSent st0 \<noteq> None \<and> useRealOffsets
             \<and> now - the (lastChunkSent st0) < chunkOffset
          then (None, st0 \<lparr> chunkProcessor :=
                              Some (chunkOffset - (now - the (lastChunkSent st0))) \<rparr>)
          else
            let st1 = st0 \<lparr> unprocessedChunks := rest, lastChunkSent := Some now \<rparr>;
                r = (if c_streamId chunk \<noteq> 0
                     then (case dictGet (streamDict st1) (c_streamId chunk) of
                             None \<Rightarrow> (Some TypeError, st1)
                           | Some i \<Rightarrow> streamWrite (c_data chunk) i st1)
                     else (None, st1))
            in
              case r of
                (Some e, st2) \<Rightarrow> (Some e, st2)
              | (None, st2) \<Rightarrow>
                  (case rest of
                     [] \<Rightarrow> (None, st2)
                   | next # _ \<Rightarrow>
                       (None, st2 \<lparr> chunkProcessor :=
                                      Some (if useRealOffsets then c_offset next else 0) \<rparr>)))"

definition chunkBufSize :: "chunk \<Rightarrow> int" where
  "chunkBufSize c =
     3 + (if c_streamId c = 0 then 2 else int (length (c_data c)) + 1)"

text \<open>
  The \<^verbatim>\<open>while (true)\<close> loop of \<^verbatim>\<open>parseBuffer\<close>: decode one frame, queue it when
  it is a data frame, check the checksum of a control frame against the running
  one, fold the frame's bytes into the running checksum and cut them off the
  buffer. The loop ends when no frame can be decoded, or with a checksum error.
\<close>

lemma streamChunkParser_parse_Nil [simp]: "streamChunkParser_parse [] = None"
  by simp

lemma sliceFrom_shorter:
  "b \<noteq> [] \<Longrightarrow> 0 < n \<Longrightarrow> length (sliceFrom b n) < length b"
  by (auto simp: sliceFrom_def jsIndex_def)

lemma chunkBufSize_pos: "0 < chunkBufSize c"
  by (simp add: chunkBufSize_def)

function parseLoop ::
  "(buffer \<Rightarrow> 16 word \<Rightarrow> 16 word) \<Rightarrow> 'j dstate \<Rightarrow> error option \<times> 'j dstate" where
  "parseLoop crc16 st =
     (case streamChunkParser_parse (buffered st) of
        None \<Rightarrow> (None, st)
      | Some c \<Rightarrow>
          let st1 = (if c_streamId c \<noteq> 0
                     then st \<lparr> unprocessedChunks := unprocessedChunks st @ [c] \<rparr>
                     else st);
              size = chunkBufSize c
          in
            if c_streamId c = 0 \<and> Some (chunksCrc st1) \<noteq> c_crc c
            then (Some CRCValidationError, st1)
            else parseLoop crc16
                   (st1 \<lparr> chunksCrc := crc16 (slice (buffered st1) 0 size) (chunksCrc st1),
                          buffered := sliceFrom (buffered st1) size \<rparr>))"
  by pat_completeness auto
termination
proof (relation "measure (\<lambda>(crc16, st). length (buffered st))", goal_cases)
  case 1
  show ?case by simp
next
  case (2 crc16 st c st1 size)
  have "buffered st \<noteq> []"
    using 2(1) by auto
  then show ?case
    using 2 chunkBufSize_pos [of c] by (auto simp: sliceFrom_shorter)
qed

text \<open>
  The header branch of \<^verbatim>\<open>parseBuffer\<close>. \<^verbatim>\<open>JSON.parse\<close> is a parameter
  \<open>parseJSON\<close> of the model, which fails (\<open>None\<close>) where \<^verbatim>\<open>JSON.parse\<close> throws;
  wrapped, its failure is a \<^verbatim>\<open>JSONParseError\<close>.
\<close>

fun mapOption :: "('a \<Rightarrow> 'b option) \<Rightarrow> 'a list \<Rightarrow> 'b list option" where
  "mapOption f [] = Some []"
| "mapOption f (x # xs) =
     (case f x of
        None \<Rightarrow> None
      | Some y \<Rightarrow> (case mapOption f xs of None \<Rightarrow> None | Some ys \<Rightarrow> Some (y # ys)))"

definition parseHead ::
  "(buffer \<Rightarrow> 16 word \<Rightarrow> 16 word) \<Rightarrow> (buffer \<Rightarrow> 'j option) \<Rightarrow> 'j dstate \<Rightarrow>
   error option \<times> 'j dstate" where
  "parseHead crc16 parseJSON st =
     (case headParserWrapped (buffered st) of
        Inl e \<Rightarrow> (Some e, st)
      | Inr head \<Rightarrow>
          let headContentsBuf = slice (buffered st) 5 (h_headerLen head - 2);
              st1 = st \<lparr> buffered := sliceFrom (buffered st) (h_headerLen head) \<rparr>
          in
            if h_crc head \<noteq> crc16 headContentsBuf 0
            then (Some CRCValidationError, st1)
            else
              let streamKeys = map m_streamId (h_meta head);
                  streams = [length (sinks st1) ..< length (sinks st1) + length (h_meta head)];
                  st2 = st1 \<lparr> sinks := sinks st1 @ replicate (length (h_meta head)) newPassThrough \<rparr>
              in
                (case wrapFnException (mapOption parseJSON) JSONParseError
                        (map m_metaString (h_meta head)) of
                   Inl e \<Rightarrow> (Some e, st2)
                 | Inr metadata \<Rightarrow>
                     (None, st2 \<lparr> streamDict := zipObject streamKeys streams,
                                  parsedHead := True,
                                  callbacks := callbacks st2 @ [CbReady streams metadata] \<rparr>)))"

definition parseBuffer ::
  "(buffer \<Rightarrow> 16 word \<Rightarrow> 16 word) \<Rightarrow> (buffer \<Rightarrow> 'j option) \<Rightarrow> bool \<Rightarrow> int \<Rightarrow> 'j dstate \<Rightarrow>
   error option \<times> 'j dstate" where
  "parseBuffer crc16 parseJSON useRealOffsets now st =
     (if buffered st = [] then (None, st)
      else
        (case (if \<not> parsedHead st then parseHead crc16 parseJSON st else parseLoop crc16 st) of
           (Some e, st1) \<Rightarrow> (Some e, st1)
         | (None, st1) \<Rightarrow>
             (case processChunks useRealOffsets now (st1 \<lparr> chunkProcessor := None \<rparr>) of
                (Some e, st2) \<Rightarrow> (Some e, st2)
              | (None, st2) \<Rightarrow> (None, st2 \<lparr> immediates := Suc (immediates st2) \<rparr>))))"

definition parseBufferWrapped ::
  "(buffer \<Rightarrow> 16 word \<Rightarrow> 16 word) \<Rightarrow> (buffer \<Rightarrow> 'j option) \<Rightarrow> bool \<Rightarrow> int \<Rightarrow> 'j dstate \<Rightarrow>
   error option \<times> 'j dstate" where
  "parseBufferWrapped crc16 parseJSON useRealOffsets now st =
     (case parseBuffer crc16 parseJSON useRealOffsets now st of
        (None, st1) \<Rightarrow> (None, st1)
      | (Some e, st1) \<Rightarrow>
          if \<not> parsedHead st1 \<and> e \<noteq> HeaderParseError
          then (None, st1 \<lparr> inputEnded := True, callbacks := callbacks st1 @ [CbError e] \<rparr>)
          else if e = CRCValidationError
          then (case broadcastError e st1 of
                  (Some x, st2) \<Rightarrow> (Some x, st2)
                | (None, st2) \<Rightarrow> (None, st2 \<lparr> inputEnded := True \<rparr>))
          else (Some e, st1))"

text \<open>
  What can happen to a demultiplexer: the input stream emits a buffer, a pending
  \<^verbatim>\<open>setImmediate\<close> or the pending \<^verbatim>\<open>setTimeout\<close> runs (the clock then reads
  \<open>now\<close>), the consumer puts a listener on the \<^verbatim>\<open>error\<close> event of stream \<open>i\<close>
  (\<open>DOnError i\<close>), whoever feeds the input ends it (\<open>DEnd\<close>), or the ended input
  emits \<^verbatim>\<open>finish\<close>, once. The \<^verbatim>\<open>data\<close> listener stays on the input for good, so
  a buffer that the input still holds is parsed whether or not the input has been
  ended. A step is \<open>None\<close> when the event cannot happen in the state; otherwise
  it is the exception that leaves the handler uncaught, if any, and the state the
  handler leaves behind.
\<close>

datatype dEvent =
    DData buffer int
  | DImmediate int
  | DTimer int
  | DOnError nat
  | DEnd
  | DFinish

fun demuxStep ::
  "(buffer \<Rightarrow> 16 word \<Rightarrow> 16 word) \<Rightarrow> (buffer \<Rightarrow> 'j option) \<Rightarrow> bool \<Rightarrow> dEvent \<Rightarrow> 'j dstate \<Rightarrow>
   (error option \<times> 'j dstate) option" where
  "demuxStep crc16 parseJSON useRealOffsets (DData data now) st =
     Some (parseBufferWrapped crc16 parseJSON useRealOffsets now
             (st \<lparr> buffered := buffered st @ data \<rparr>))"
| "demuxStep crc16 parseJSON useRealOffsets (DImmediate now) st =
     (if immediates st = 0 then None
      else Some (parseBufferWrapped crc16 parseJSON useRealOffsets now
                   (st \<lparr> immediates := immediates st - 1 \<rparr>)))"
| "demuxStep crc16 parseJSON useRealOffsets (DTimer now) st =
     (if chunkProcessor st = None then None
      else Some (processChunks useRealOffsets now st))"
| "demuxStep crc16 parseJSON useRealOffsets (DOnError i) st =
     (if i < length (sinks st)
      then Some (None, st \<lparr> errorListeners := insert i (errorListeners st) \<rparr>)
      else None)"
| "demuxStep crc16 parseJSON useRealOffsets DEnd st = Some (None, st \<lparr> inputEnded := True \<rparr>)"
| "demuxStep crc16 parseJSON useRealOffsets DFinish st =
     (if inputEnded st \<and> \<not> inputFinished st
      then Some (None, (endStreams st) \<lparr> inputFinished := True \<rparr>)
      else None)"

text \<open>
  A run of events. It stops at the first uncaught exception, which ends the
  process, and is \<open>None\<close> when an event of the list cannot happen where it stands.
\<close>

fun demuxRun ::
  "(buffer \<Rightarrow> 16 word \<Rightarrow> 16 word) \<Rightarrow> (buffer \<Rightarrow> 'j option) \<Rightarrow> bool \<Rightarrow> dEvent list \<Rightarrow> 'j dstate \<Rightarrow>
   (error option \<times> 'j dstate) option" where
  "demuxRun crc16 parseJSON useRealOffsets [] st = Some (None, st)"
| "demuxRun crc16 parseJSON useRealOffsets (ev # evs) st =
     (case demuxStep crc16 parseJSON useRealOffsets ev st of
        None \<Rightarrow> None
      | Some (Some e, st') \<Rightarrow> Some (Some e, st')
      | Some (None, st') \<Rightarrow> demuxRun crc16 parseJSON useRealOffsets evs st')"

section \<open>The wire format in the words of the specification\<close>

text \<open>
  What \<^verbatim>\<open>mkStreamChunkBuf\<close> is specified to return for a payload: the head frame
  with the caller's offset, then one frame of offset 0 for each 255-byte slice.
\<close>

definition dataFrames :: "int \<Rightarrow> int \<Rightarrow> buffer \<Rightarrow> buffer" where
  "dataFrames streamId offset chunk =
     dataFrame streamId offset (hd (tailSlices chunk)) @
     concat (map (dataFrame streamId 0) (tl (tailSlices chunk)))"

text \<open>The control frame: stream id 0, the offset and the checksum, five bytes.\<close>

definition controlFrame :: "int \<Rightarrow> 16 word \<Rightarrow> buffer" where
  "controlFrame offset w =
     [0, word_of_int (offset mod 256), word_of_int (offset div 256),
      word_of_int (uint w mod 256), word_of_int (uint w div 256)]"

text \<open>
  One buffer written after the header, by what it encodes: a control frame, or the
  frames of one buffer of a source.
\<close>

datatype wire = WCtrl int "16 word" | WData nat int buffer

fun enc :: "wire \<Rightarrow> buffer" where
  "enc (WCtrl offset w) = controlFrame offset w"
| "enc (WData sid offset d) = dataFrames (int sid) offset d"

fun wireOffset :: "wire \<Rightarrow> int" where
  "wireOffset (WCtrl offset w) = offset"
| "wireOffset (WData sid offset d) = offset"

fun wirePayload :: "nat \<Rightarrow> wire list \<Rightarrow> buffer" where
  "wirePayload k [] = []"
| "wirePayload k (WCtrl offset w # ws) = wirePayload k ws"
| "wirePayload k (WData sid offset d # ws) = (if sid = k then d else []) @ wirePayload k ws"

text \<open>
  \<open>crcChain crc16 c ws\<close>: starting from the running checksum \<open>c\<close>, the checksum
  field of every control frame of \<open>ws\<close> is the checksum folded over all the buffers
  written before it, none of its own bytes included, and the frame itself is folded
  in after it.
\<close>

fun crcChain :: "(buffer \<Rightarrow> 16 word \<Rightarrow> 16 word) \<Rightarrow> 16 word \<Rightarrow> wire list \<Rightarrow> bool" where
  "crcChain crc16 c [] = True"
| "crcChain crc16 c (WCtrl offset w # ws) =
     (w = c \<and> crcChain crc16 (crc16 (enc (WCtrl offset w)) c) ws)"
| "crcChain crc16 c (WData sid offset d # ws) =
     crcChain crc16 (crc16 (enc (WData sid offset d)) c) ws"

section \<open>Event traces\<close>

text \<open>
  The timing of a trace. \<open>ticked gap lastTick prev evs\<close>: the clock never runs
  backwards (\<open>prev\<close> is the time of the event before), and every event happens at
  most \<open>gap\<close> milliseconds after the last firing of the interval (\<open>lastTick\<close>; at
  first the start of the session). With an interval of one second that fires on
  time, \<open>gap\<close> is 1000.
\<close>

fun ticked :: "int \<Rightarrow> int \<Rightarrow> int \<Rightarrow> event list \<Rightarrow> bool" where
  "ticked gap lastTick prev [] = True"
| "ticked gap lastTick prev (Data i d t t' # evs) =
     (prev \<le> t \<and> t \<le> t' \<and> t' \<le> lastTick + gap \<and> ticked gap lastTick t' evs)"
| "ticked gap lastTick prev (Finish i t # evs) =
     (prev \<le> t \<and> t \<le> lastTick + gap \<and> ticked gap lastTick t evs)"
| "ticked gap lastTick prev (Tick t # evs) =
     (prev \<le> t \<and> t \<le> lastTick + gap \<and> ticked gap t t evs)"
| "ticked gap lastTick prev (EndOutput # evs) = ticked gap lastTick prev evs"
| "ticked gap lastTick prev (OutputFinish # evs) = ticked gap lastTick prev evs"


fun outputOpen :: "event list \<Rightarrow> bool" where
  "outputOpen [] = True"
| "outputOpen (EndOutput # evs) = False"
| "outputOpen (ev # evs) = outputOpen evs"

fun acceptedBytes :: "bool list \<Rightarrow> nat \<Rightarrow> event list \<Rightarrow> buffer" where
  "acceptedBytes l i [] = []"
| "acceptedBytes l i (Data j d t t' # evs) =
     (if j = i \<and> j < length l \<and> l ! j then d else []) @ acceptedBytes l i evs"
| "acceptedBytes l i (Finish j t # evs) =
     acceptedBytes (l[j := False]) i evs"
| "acceptedBytes l i (ev # evs) = acceptedBytes l i evs"


section \<open>A checksum to evaluate the model with\<close>

text \<open>
  Modelled from the spec: the checksum function of \<^verbatim>\<open>./crc16\<close>, which is not among
  the sources. The specification fixes its interface only: a 16-bit checksum of a
  byte range, seeded with a prior checksum (0 by default). The model takes the
  function as a parameter; where a concrete input is evaluated the parameter is
  the CRC-16 with polynomial 0x1021 and no reflection (CRC-16/XMODEM), which folds
  over the bytes one by one.
\<close>

definition crcShift :: "16 word \<Rightarrow> 16 word" where
  "crcShift x = (if bit x 15 then push_bit 1 x XOR 0x1021 else push_bit 1 x)"

definition crcByte :: "byte \<Rightarrow> 16 word \<Rightarrow> 16 word" where
  "crcByte b c =
     crcShift (crcShift (crcShift (crcShift (crcShift (crcShift (crcShift (crcShift
       (c XOR push_bit 8 (ucast b)))))))))"

definition crc16_ccitt :: "buffer \<Rightarrow> 16 word \<Rightarrow> 16 word" where
  "crc16_ccitt buf c = fold crcByte buf c"

section \<open>Definitions used in the proofs\<close>

text \<open>
  \<open>extends crc16 st st' ws\<close>: the state \<open>st'\<close> has written the buffers that \<open>ws\<close>
  encodes after those of \<open>st\<close>, and its running checksum is that of \<open>st\<close> with
  each of these buffers folded in, in order, the control frames among them carrying
  the running checksum of the moment they were written. \<open>sameFlags\<close>: the two states agree on
  \<^verbatim>\<open>canWrite\<close>, on the interval and on whether the output has been ended.
  \<open>wireOK n bound\<close>: the offset of a written buffer lies between 0 and \<open>bound\<close>,
  and a data buffer carries a stream id between 1 and \<open>n\<close>.
\<close>

definition extends :: "(buffer \<Rightarrow> 16 word \<Rightarrow> 16 word) \<Rightarrow> mstate \<Rightarrow> mstate \<Rightarrow> wire list \<Rightarrow> bool" where
  "extends crc16 st st' ws \<longleftrightarrow>
     out st' = out st @ map enc ws \<and>
     crc st' = foldl (\<lambda>c b. crc16 b c) (crc st) (map enc ws) \<and>
     crcChain crc16 (crc st) ws"

definition sameFlags :: "mstate \<Rightarrow> mstate \<Rightarrow> bool" where
  "sameFlags st st' \<longleftrightarrow>
     canWrite st' = canWrite st \<and> ticking st' = ticking st \<and> outEnded st' = outEnded st"

definition wireOK :: "nat \<Rightarrow> int \<Rightarrow> wire \<Rightarrow> bool" where
  "wireOK n bound w \<longleftrightarrow>
     0 \<le> wireOffset w \<and> wireOffset w \<le> bound \<and>
     (case w of WCtrl offset c \<Rightarrow> True | WData sid offset d \<Rightarrow> 1 \<le> sid \<and> sid \<le> n)"

text \<open>
  The header that \<^verbatim>\<open>multiplexStreams\<close> writes, in the words of the specification:
  a 32-bit little-endian length, one stream-meta record per stream, and the body made
  of the stream count, the time stamp and the records.
\<close>

definition le32 :: "int \<Rightarrow> buffer" where
  "le32 v = [word_of_int (v mod 256), word_of_int (v div 256 mod 256),
             word_of_int (v div 65536 mod 256), word_of_int (v div 16777216)]"

definition metaBytes :: "nat \<Rightarrow> buffer" where
  "metaBytes k = word_of_int (int k) # le32 (int (length (jsonStringifyMeta k))) @ jsonStringifyMeta k"

definition headerBody :: "32 word \<Rightarrow> nat \<Rightarrow> buffer" where
  "headerBody ts n =
     word_of_int (int n) # mkBufFloatLe ts @ concat (map (\<lambda>i. metaBytes (Suc i)) [0..<n])"

text \<open>
  The invariant of a multiplexer run under the timing of \<open>ticked\<close>: the clock has
  not passed \<open>prev\<close>; while the output is writable the interval is set and the last
  message is at most \<^verbatim>\<open>maxDataGap\<close> older than the last firing of the interval; once it
  is not writable no source is listened to.
\<close>

definition muxInv ::
  "(buffer \<Rightarrow> 16 word \<Rightarrow> 16 word) \<Rightarrow> nat \<Rightarrow> int \<Rightarrow> int \<Rightarrow> int \<Rightarrow> int \<Rightarrow> mstate \<Rightarrow> bool" where
  "muxInv crc16 n maxDataGap gap lastTick prev st \<longleftrightarrow>
     length (listening st) = n \<and> n \<le> 254 \<and> 0 \<le> maxDataGap \<and> maxDataGap + gap \<le> 65535 \<and>
     lastMsgTime st \<le> prev \<and>
     (canWrite st \<longrightarrow> ticking st \<and> lastTick - lastMsgTime st \<le> maxDataGap) \<and>
     (\<not> canWrite st \<longrightarrow> listening st = replicate n False)"

section \<open>Frames, runs of the demultiplexer and the invariant of a round trip\<close>

text \<open>
  One frame of the wire as bytes (\<open>encChunk\<close>), the frames that one written buffer
  consists of (\<open>chunksOf\<close>), and what makes a frame well formed for \<open>n\<close> streams:
  an offset that fits 16 bits and, for a data frame, a stream id between 1 and \<open>n\<close>
  and at most 255 bytes of payload. \<open>frameChain\<close> is \<open>crcChain\<close> frame by frame;
  \<open>dataChunks\<close> keeps the data frames.
\<close>

fun encChunk :: "chunk \<Rightarrow> buffer" where
  "encChunk (ControlChunk offset w) = controlFrame offset w"
| "encChunk (DataChunk sid offset d) = dataFrame (int sid) offset d"


definition wfChunk :: "nat \<Rightarrow> chunk \<Rightarrow> bool" where
  "wfChunk n c \<longleftrightarrow>
     0 \<le> c_offset c \<and> c_offset c \<le> 65535 \<and>
     (case c of
        ControlChunk offset w \<Rightarrow> True
      | DataChunk sid offset d \<Rightarrow> 1 \<le> sid \<and> sid \<le> n \<and> length d \<le> 255)"

fun frameChain :: "(buffer \<Rightarrow> 16 word \<Rightarrow> 16 word) \<Rightarrow> 16 word \<Rightarrow> chunk list \<Rightarrow> bool" where
  "frameChain crc16 c [] = True"
| "frameChain crc16 c (ControlChunk offset w # fs) =
     (w = c \<and> frameChain crc16 (crc16 (encChunk (ControlChunk offset w)) c) fs)"
| "frameChain crc16 c (DataChunk sid offset d # fs) =
     frameChain crc16 (crc16 (encChunk (DataChunk sid offset d)) c) fs"

definition dataChunks :: "chunk list \<Rightarrow> chunk list" where
  "dataChunks fs = filter (\<lambda>c. c_streamId c \<noteq> 0) fs"


fun noData :: "dEvent list \<Rightarrow> bool" where
  "noData [] = True"
| "noData (DData d now # evs) = False"
| "noData (ev # evs) = noData evs"










section \<open>Properties of the data-frame encoder\<close>

declare mkStreamChunkBuf.simps [simp del] splitTail.simps [simp del] tailSlices.simps [simp del]

lemma splitTail_short:
  "length chunk \<le> 255 \<Longrightarrow> splitTail chunk streamId cont = Inr (chunk, cont)"
  by (subst splitTail.simps) simp

lemma mkStart_ok:
  "0 \<le> streamId \<Longrightarrow> streamId \<le> 255 \<Longrightarrow> 0 \<le> offset \<Longrightarrow> offset \<le> 65535 \<Longrightarrow>
   length payload \<le> 255 \<Longrightarrow>
   mkStart streamId offset (int (length payload)) =
     Inr (take 4 (dataFrame streamId offset payload))"
  by (simp add: mkStart_def writeUInt8_def writeUInt16LE_def dataFrame_def)

lemma mkStreamChunkBuf_short:
  "0 \<le> streamId \<Longrightarrow> streamId \<le> 255 \<Longrightarrow> 0 \<le> offset \<Longrightarrow> offset \<le> 65535 \<Longrightarrow>
   length chunk \<le> 255 \<Longrightarrow>
   mkStreamChunkBuf chunk streamId offset = Inr (dataFrame streamId offset chunk)"
  by (subst mkStreamChunkBuf.simps) (simp add: splitTail_short mkStart_ok, simp add: dataFrame_def)

lemma tailSlices_nonempty: "tailSlices chunk \<noteq> []"
  by (subst tailSlices.simps) simp

lemma splitTail_slices:
  "0 \<le> streamId \<Longrightarrow> streamId \<le> 255 \<Longrightarrow>
   splitTail chunk streamId cont =
     Inr (hd (tailSlices chunk),
          concat (map (dataFrame streamId 0) (tl (tailSlices chunk))) @ cont)"
proof (induction chunk arbitrary: cont rule: tailSlices.induct)
  case (1 chunk)
  show ?case
  proof (cases "length chunk > 255")
    case False
    then show ?thesis
      by (subst tailSlices.simps, subst (2) tailSlices.simps) (simp add: splitTail_short)
  next
    case True
    let ?t = "drop (length chunk - 255) chunk"
    let ?h = "take (length chunk - 255) chunk"
    have t: "mkStreamChunkBuf ?t streamId 0 = Inr (dataFrame streamId 0 ?t)"
      using 1(2,3) True by (intro mkStreamChunkBuf_short) auto
    have ts: "tailSlices chunk = tailSlices ?h @ [?t]"
      using True by (subst tailSlices.simps) simp
    show ?thesis
      using True 1(1)[OF True 1(2,3)] t tailSlices_nonempty[of ?h]
      by (subst splitTail.simps) (simp add: ts)
  qed
qed

lemma concat_tailSlices: "concat (tailSlices chunk) = chunk"
proof (induction chunk rule: tailSlices.induct)
  case (1 chunk)
  then show ?case by (subst tailSlices.simps) auto
qed

lemma hd_tailSlices_le: "length (hd (tailSlices chunk)) \<le> 255"
proof (induction chunk rule: tailSlices.induct)
  case (1 chunk)
  then show ?case using tailSlices_nonempty[of "take (length chunk - 255) chunk"]
    by (subst tailSlices.simps) auto
qed

lemma tl_tailSlices_255: "s \<in> set (tl (tailSlices chunk)) \<Longrightarrow> length s = 255"
proof (induction chunk rule: tailSlices.induct)
  case (1 chunk)
  show ?case
  proof (cases "length chunk > 255")
    case False
    with 1(2) show ?thesis by (subst (asm) tailSlices.simps) simp
  next
    case True
    with 1 show ?thesis using tailSlices_nonempty[of "take (length chunk - 255) chunk"]
      by (subst (asm) (2) tailSlices.simps) auto
  qed
qed

lemma tailSlices_600:
  assumes "length chunk = 600"
  shows "tailSlices chunk = [take 90 chunk, take 255 (drop 90 chunk), drop 345 chunk]"
proof -
  have a: "tailSlices chunk = tailSlices (take 345 chunk) @ [drop 345 chunk]"
    using assms by (subst tailSlices.simps) simp
  have b: "tailSlices (take 345 chunk) = tailSlices (take 90 chunk) @ [drop 90 (take 345 chunk)]"
    using assms by (subst tailSlices.simps) (simp add: min_def)
  have c: "tailSlices (take 90 chunk) = [take 90 chunk]"
    using assms by (subst tailSlices.simps) simp
  have d: "drop 90 (take 345 chunk) = take 255 (drop 90 chunk)"
    by (simp add: drop_take)
  show ?thesis by (simp add: a b c d)
qed

text \<open>
  Claim C3. Whatever the payload, \<^verbatim>\<open>mkStreamChunkBuf\<close> returns the head frame
  first, carrying the caller's offset and the bytes that remain after the payload has
  been cut from the tail in 255-byte slices (at most 255 of them), followed by one frame
  of offset 0 for each 255-byte slice, in payload order; the slices concatenate back to
  the payload. A 600-byte payload gives the three slices of 90, 255 and 255 bytes.
\<close>

theorem data_frame_tail_split:
  assumes "0 \<le> streamId" "streamId \<le> 255" "0 \<le> offset" "offset \<le> 65535"
  shows "mkStreamChunkBuf chunk streamId offset =
           Inr (dataFrame streamId offset (hd (tailSlices chunk)) @
                concat (map (dataFrame streamId 0) (tl (tailSlices chunk))))
         \<and> concat (tailSlices chunk) = chunk
         \<and> length (hd (tailSlices chunk)) \<le> 255
         \<and> list_all (\<lambda>s. length s = 255) (tl (tailSlices chunk))
         \<and> (if length chunk = 600
            then tailSlices chunk = [take 90 chunk, take 255 (drop 90 chunk), drop 345 chunk]
            else True)"
proof -
  have "mkStreamChunkBuf chunk streamId offset =
           Inr (dataFrame streamId offset (hd (tailSlices chunk)) @
                concat (map (dataFrame streamId 0) (tl (tailSlices chunk))))"
    using assms hd_tailSlices_le[of chunk]
    by (subst mkStreamChunkBuf.simps)
       (simp add: splitTail_slices mkStart_ok, simp add: dataFrame_def)
  moreover have "list_all (\<lambda>s. length s = 255) (tl (tailSlices chunk))"
    by (simp add: list_all_iff tl_tailSlices_255)
  ultimately show ?thesis
    by (simp add: concat_tailSlices hd_tailSlices_le tailSlices_600)
qed

theorem data_frame_tail_split_witness:
  "mkStreamChunkBuf (replicate 600 7) 1 1234 =
     Inr (dataFrame 1 1234 (replicate 90 7) @ dataFrame 1 0 (replicate 255 7) @
          dataFrame 1 0 (replicate 255 7))"
  using data_frame_tail_split [of 1 1234 "replicate 600 7"] by simp

section \<open>Properties of the multiplexer\<close>

lemma mkStreamChunkBuf_frames:
  assumes "0 \<le> streamId" "streamId \<le> 255" "0 \<le> offset" "offset \<le> 65535"
  shows "mkStreamChunkBuf chunk streamId offset = Inr (dataFrames streamId offset chunk)"
  using assms hd_tailSlices_le[of chunk] unfolding dataFrames_def
  by (subst mkStreamChunkBuf.simps)
     (simp add: splitTail_slices mkStart_ok, simp add: dataFrame_def)

lemma mkStreamCrcBuf_ok:
  assumes "0 \<le> offset" "offset \<le> 65535"
  shows "mkStreamCrcBuf offset (uint w) = Inr (controlFrame offset w)"
proof -
  have "uint w \<le> 65535" using uint_lt2p [of w] by simp
  with assms show ?thesis
    by (simp add: mkStreamCrcBuf_def writeUInt16LE_def controlFrame_def)
qed

lemma maybeSendCrc_eq:
  assumes "0 \<le> now - lastMsgTime st" "now - lastMsgTime st \<le> 65535"
  shows "maybeSendCrc crc16 maxDataGap crcBufferSize now st =
     Inr (if canWrite st \<and> (now - lastMsgTime st > maxDataGap
                             \<or> crcProcessedBytes st > crcBufferSize \<or> streamsAlive st = 0)
          then st \<lparr> lastMsgTime := now, crcProcessedBytes := 0,
                    out := out st @ [controlFrame (now - lastMsgTime st) (crc st)],
                    crc := crc16 (controlFrame (now - lastMsgTime st) (crc st)) (crc st) \<rparr>
          else st)"
  using assms by (simp add: maybeSendCrc_def Let_def thenE_def mkStreamCrcBuf_ok)

lemma maybeSendCrc_stopped:
  "\<not> canWrite st \<Longrightarrow> maybeSendCrc crc16 maxDataGap crcBufferSize now st = Inr st"
  by (simp add: maybeSendCrc_def)

lemma extends_refl: "extends crc16 st st []"
  by (simp add: extends_def)

lemma crcChain_append:
  "crcChain crc16 c (ws @ ws') \<longleftrightarrow>
     crcChain crc16 c ws \<and> crcChain crc16 (foldl (\<lambda>c b. crc16 b c) c (map enc ws)) ws'"
  by (induction crc16 c ws rule: crcChain.induct) auto

lemma extends_trans:
  "extends crc16 st st' ws \<Longrightarrow> extends crc16 st' st'' ws' \<Longrightarrow> extends crc16 st st'' (ws @ ws')"
  by (simp add: extends_def crcChain_append)

lemma maybeSendCrc_step:
  assumes "lastMsgTime st \<le> now" "canWrite st \<longrightarrow> now - lastMsgTime st \<le> bound"
    "bound \<le> 65535" "0 \<le> maxDataGap"
  shows "\<exists>st' ws. maybeSendCrc crc16 maxDataGap crcBufferSize now st = Inr st' \<and>
           extends crc16 st st' ws \<and> sameFlags st st' \<and> list_all (wireOK n bound) ws \<and>
           (\<forall>k. wirePayload k ws = []) \<and>
           listening st' = listening st \<and> streamsAlive st' = streamsAlive st \<and>
           lastMsgTime st \<le> lastMsgTime st' \<and> lastMsgTime st' \<le> now \<and>
           (canWrite st \<longrightarrow> now - lastMsgTime st' \<le> maxDataGap)"
proof (cases "canWrite st")
  case False
  then show ?thesis
    using assms by (intro exI[of _ st] exI[of _ "[]"]) (simp add: maybeSendCrc_stopped extends_refl sameFlags_def)
next
  case True
  let ?d = "now - lastMsgTime st"
  have rng: "0 \<le> ?d" "?d \<le> 65535" using assms True by auto
  show ?thesis
  proof (cases "?d > maxDataGap \<or> crcProcessedBytes st > crcBufferSize \<or> streamsAlive st = 0")
    case False
    then show ?thesis
      using assms True rng
      by (intro exI[of _ st] exI[of _ "[]"]) (simp add: maybeSendCrc_eq extends_refl sameFlags_def)
  next
    case trig: True
    let ?st' = "st \<lparr> lastMsgTime := now, crcProcessedBytes := 0,
                    out := out st @ [controlFrame ?d (crc st)],
                    crc := crc16 (controlFrame ?d (crc st)) (crc st) \<rparr>"
    have "maybeSendCrc crc16 maxDataGap crcBufferSize now st = Inr ?st'"
      using True trig rng by (simp add: maybeSendCrc_eq)
    moreover have "extends crc16 st ?st' [WCtrl ?d (crc st)]"
      by (simp add: extends_def)
    moreover have "list_all (wireOK n bound) [WCtrl ?d (crc st)]"
      using assms True rng by (simp add: wireOK_def)
    ultimately show ?thesis
      using assms by (intro exI[of _ ?st'] exI[of _ "[WCtrl ?d (crc st)]"]) (simp add: sameFlags_def)
  qed
qed

lemma makeListener_step:
  assumes "canWrite st" "lastMsgTime st \<le> now" "now \<le> now'"
    "now' - lastMsgTime st \<le> bound" "bound \<le> 65535" "0 \<le> maxDataGap"
    "i < n" "n \<le> 254"
  shows "\<exists>st' ws. makeListener crc16 maxDataGap crcBufferSize i d now now' st = Inr st' \<and>
           extends crc16 st st' ws \<and> sameFlags st st' \<and> list_all (wireOK n bound) ws \<and>
           (\<forall>k. wirePayload k ws = (if k = Suc i then d else [])) \<and>
           listening st' = listening st \<and> streamsAlive st' = streamsAlive st \<and>
           lastMsgTime st \<le> lastMsgTime st' \<and> lastMsgTime st' \<le> now'"
proof -
  let ?d = "now - lastMsgTime st"
  let ?b = "dataFrames (int (Suc i)) ?d d"
  let ?st1 = "st \<lparr> lastMsgTime := now, out := out st @ [?b], crc := crc16 ?b (crc st),
                   crcProcessedBytes := crcProcessedBytes st + int (length ?b) \<rparr>"
  have rng: "0 \<le> ?d" "?d \<le> 65535" "?d \<le> bound" using assms by auto
  have mk: "mkStreamChunkBuf d (1 + int i) ?d = Inr (dataFrames (1 + int i) ?d d)"
    using assms rng by (intro mkStreamChunkBuf_frames) auto
  have ml: "makeListener crc16 maxDataGap crcBufferSize i d now now' st =
              maybeSendCrc crc16 maxDataGap crcBufferSize now' ?st1"
    using assms(1) by (simp add: makeListener_def Let_def mk thenE_def streamIdOffset_def)
  have e1: "extends crc16 st ?st1 [WData (Suc i) ?d d]"
    by (simp add: extends_def)
  obtain st' ws where s:
    "maybeSendCrc crc16 maxDataGap crcBufferSize now' ?st1 = Inr st'"
    "extends crc16 ?st1 st' ws" "sameFlags ?st1 st'" "list_all (wireOK n bound) ws"
    "\<forall>k. wirePayload k ws = []" "listening st' = listening ?st1"
    "streamsAlive st' = streamsAlive ?st1"
    "lastMsgTime ?st1 \<le> lastMsgTime st'" "lastMsgTime st' \<le> now'"
    using maybeSendCrc_step [of ?st1 now' bound maxDataGap crc16 crcBufferSize n] assms
    by auto
  have ok: "list_all (wireOK n bound) (WData (Suc i) ?d d # ws)"
    using s(4) rng assms by (simp add: wireOK_def)
  have pl: "\<forall>k. wirePayload k (WData (Suc i) ?d d # ws) = (if k = Suc i then d else [])"
    using s(5) by simp
  show ?thesis
    using ml s extends_trans [OF e1 s(2)] ok pl assms
    by (intro exI[of _ st'] exI[of _ "WData (Suc i) ?d d # ws"]) (auto simp: sameFlags_def)
qed

lemma finishStream_step:
  assumes "lastMsgTime st \<le> now" "canWrite st \<longrightarrow> now - lastMsgTime st \<le> bound"
    "bound \<le> 65535" "0 \<le> maxDataGap"
  shows "\<exists>st' ws. finishStream crc16 maxDataGap crcBufferSize i now st = Inr st' \<and>
           extends crc16 st st' ws \<and> sameFlags st st' \<and> list_all (wireOK n bound) ws \<and>
           (\<forall>k. wirePayload k ws = []) \<and>
           listening st' = (listening st)[i := False] \<and>
           streamsAlive st' = streamsAlive st - 1 \<and>
           lastMsgTime st \<le> lastMsgTime st' \<and> lastMsgTime st' \<le> now \<and>
           (canWrite st \<longrightarrow> now - lastMsgTime st' \<le> maxDataGap)"
proof -
  let ?st1 = "st \<lparr> streamsAlive := streamsAlive st - 1 \<rparr>"
  obtain st' ws where s:
    "maybeSendCrc crc16 maxDataGap crcBufferSize now ?st1 = Inr st'"
    "extends crc16 ?st1 st' ws" "sameFlags ?st1 st'" "list_all (wireOK n bound) ws"
    "\<forall>k. wirePayload k ws = []" "listening st' = listening ?st1"
    "streamsAlive st' = streamsAlive ?st1"
    "lastMsgTime ?st1 \<le> lastMsgTime st'" "lastMsgTime st' \<le> now"
    "canWrite ?st1 \<longrightarrow> now - lastMsgTime st' \<le> maxDataGap"
    using maybeSendCrc_step [of ?st1 now bound maxDataGap crc16 crcBufferSize n] assms
    by auto
  let ?st2 = "st' \<lparr> listening := (listening st')[i := False] \<rparr>"
  have "finishStream crc16 maxDataGap crcBufferSize i now st = Inr ?st2"
    by (simp add: finishStream_def s(1) thenE_def)
  moreover have "extends crc16 st ?st2 ws"
    using s(2) by (simp add: extends_def)
  ultimately show ?thesis
    using s by (intro exI[of _ ?st2] exI[of _ ws]) (auto simp: sameFlags_def)
qed

lemma finishAll_stopped:
  "\<not> canWrite st \<Longrightarrow>
   \<exists>st'. finishAll crc16 maxDataGap crcBufferSize is st = Inr st' \<and>
     extends crc16 st st' [] \<and> sameFlags st st' \<and> lastMsgTime st' = lastMsgTime st \<and>
     length (listening st') = length (listening st) \<and>
     (\<forall>j < length (listening st). listening st' ! j = (listening st ! j \<and> j \<notin> set is))"
proof (induction "is" arbitrary: st)
  case Nil
  then show ?case by (simp add: extends_refl sameFlags_def)
next
  case (Cons i "is")
  let ?st1 = "st \<lparr> streamsAlive := streamsAlive st - 1, listening := (listening st)[i := False] \<rparr>"
  have f: "finishStream crc16 maxDataGap crcBufferSize i (lastMsgTime st) st = Inr ?st1"
    using Cons.prems by (simp add: finishStream_def maybeSendCrc_stopped thenE_def)
  have "\<not> canWrite ?st1" using Cons.prems by simp
  from Cons.IH [OF this] obtain st' where s:
    "finishAll crc16 maxDataGap crcBufferSize is ?st1 = Inr st'"
    "extends crc16 ?st1 st' []" "lastMsgTime st' = lastMsgTime ?st1"
    "length (listening st') = length (listening ?st1)"
    "\<forall>j < length (listening ?st1). listening st' ! j = (listening ?st1 ! j \<and> j \<notin> set is)"
    "sameFlags ?st1 st'"
    by blast
  have "finishAll crc16 maxDataGap crcBufferSize (i # is) st = Inr st'"
    using f s(1) by (simp add: thenE_def)
  moreover have "extends crc16 st st' []"
    using s(2) by (simp add: extends_def)
  moreover have "\<forall>j < length (listening st). listening st' ! j = (listening st ! j \<and> j \<notin> set (i # is))"
    using s(5) by (cases "i < length (listening st)") (auto simp: nth_list_update)
  moreover have "sameFlags st st'"
    using s(6) by (simp add: sameFlags_def)
  ultimately show ?case using s by auto
qed

lemma stop_step:
  "\<exists>st'. stop crc16 maxDataGap crcBufferSize st = Inr st' \<and>
     out st' = out st \<and> crc st' = crc st \<and> \<not> canWrite st' \<and> outEnded st' = outEnded st \<and>
     lastMsgTime st' = lastMsgTime st \<and>
     listening st' = map (\<lambda>x. False) (listening st)"
proof -
  let ?st1 = "st \<lparr> canWrite := False, ticking := False \<rparr>"
  have "\<not> canWrite ?st1" by simp
  from finishAll_stopped [OF this, of crc16 maxDataGap crcBufferSize "[0..<length (listening st)]"]
  obtain st' where s:
    "finishAll crc16 maxDataGap crcBufferSize [0..<length (listening st)] ?st1 = Inr st'"
    "extends crc16 ?st1 st' []" "lastMsgTime st' = lastMsgTime ?st1"
    "length (listening st') = length (listening ?st1)"
    "\<forall>j < length (listening ?st1). listening st' ! j =
        (listening ?st1 ! j \<and> j \<notin> set [0..<length (listening st)])"
    "sameFlags ?st1 st'"
    by auto
  have "listening st' = map (\<lambda>x. False) (listening st)"
    using s(4,5) by (intro nth_equalityI) auto
  then show ?thesis
    using s by (intro exI[of _ st']) (auto simp: stop_def extends_def sameFlags_def)
qed

declare decimal.simps [simp del]

lemma decimal_length: "k < 1000 \<Longrightarrow> length (decimal k) \<le> 3"
  by (subst decimal.simps, subst decimal.simps, subst decimal.simps) auto

lemma jsonStringifyMeta_length: "k < 1000 \<Longrightarrow> length (jsonStringifyMeta k) \<le> 10"
  using decimal_length [of k] by (simp add: jsonStringifyMeta_def)

lemma mkStreamMetaBuf_ok: "k \<le> 255 \<Longrightarrow> mkStreamMetaBuf k = Inr (metaBytes k)"
  using jsonStringifyMeta_length [of k]
  by (simp add: mkStreamMetaBuf_def Let_def thenE_def writeUInt8_def writeUInt32LE_def
      metaBytes_def le32_def)

lemma metaBytes_length: "k < 1000 \<Longrightarrow> length (metaBytes k) \<le> 15"
  using jsonStringifyMeta_length [of k] by (simp add: metaBytes_def le32_def)

lemma sequenceE_map_Inr:
  "(\<And>x. x \<in> set xs \<Longrightarrow> f x = Inr (g x)) \<Longrightarrow> sequenceE (map f xs) = Inr (map g xs)"
  by (induction xs) (auto simp: thenE_def)

lemma foldl_length_sum:
  "foldl (\<lambda>sum b. sum + int (length b)) a bs = a + int (length (concat bs))"
  by (induction bs arbitrary: a) auto

lemma concat_metaBytes_length:
  "(\<And>k. k \<in> set ks \<Longrightarrow> k < 1000) \<Longrightarrow> length (concat (map metaBytes ks)) \<le> 15 * length ks"
proof (induction ks)
  case Nil
  then show ?case by simp
next
  case (Cons k ks)
  then show ?case using metaBytes_length [of k] by auto
qed

lemma headerBody_length: "n \<le> 254 \<Longrightarrow> length (headerBody ts n) \<le> 5 + 15 * n"
proof -
  assume n: "n \<le> 254"
  have "length (concat (map metaBytes (map Suc [0..<n]))) \<le> 15 * length (map Suc [0..<n])"
    using n by (intro concat_metaBytes_length) auto
  then show ?thesis
    by (simp add: headerBody_def mkBufFloatLe_def comp_def)
qed

lemma multiplexStreams_ok:
  assumes "n \<le> 254"
  shows "multiplexStreams crc16 float32 n now =
     Inr \<lparr> out = [[1], le32 (7 + int (length (headerBody (float32 now) n))),
                   headerBody (float32 now) n,
                   drop 3 (controlFrame 0 (crc16 (headerBody (float32 now) n) 0))],
           outEnded = False, lastMsgTime = now, crc = 0, crcProcessedBytes = 0,
           streamsAlive = int n, canWrite = True, listening = replicate n True,
           ticking = True \<rparr>"
proof -
  have metas: "sequenceE (map (\<lambda>i. mkStreamMetaBuf (i + streamIdOffset)) [0..<n]) =
                 Inr (map (\<lambda>i. metaBytes (Suc i)) [0..<n])"
    using assms by (intro sequenceE_map_Inr) (auto simp: streamIdOffset_def mkStreamMetaBuf_ok)
  have len: "length (headerBody (float32 now) n) \<le> 5 + 15 * n"
    using assms by (rule headerBody_length)
  have u: "uint (crc16 (headerBody (float32 now) n) 0) \<le> 65535"
    using uint_lt2p [of "crc16 (headerBody (float32 now) n) 0"] by simp
  have hb: "word_of_int (int n) # mkBufFloatLe (float32 now) @
              concat (map (\<lambda>i. metaBytes (Suc i)) [0..<n]) = headerBody (float32 now) n"
    by (simp add: headerBody_def)
  show ?thesis
    using assms len u
    by (simp add: multiplexStreams_def metas thenE_def mkBuf8_def writeUInt8_def Let_def
        foldl_length_sum mkBuf32le_def writeUInt32LE_def mkBuf16le_def writeUInt16LE_def
        protocolVersion_def le32_def controlFrame_def hb del: upt.simps)
       (simp add: headerBody_def)
qed

lemma muxRun_inv:
  assumes "muxInv crc16 n maxDataGap gap lastTick prev st" "ticked gap lastTick prev evs"
  shows "\<exists>st' ws. muxRun crc16 maxDataGap crcBufferSize evs st = Inr st' \<and>
           extends crc16 st st' ws \<and> list_all (wireOK n (maxDataGap + gap)) ws \<and>
           (outputOpen evs \<and> \<not> outEnded st \<longrightarrow>
              \<not> outEnded st' \<and>
              (\<forall>i. wirePayload (Suc i) ws = acceptedBytes (listening st) i evs))"
  using assms
proof (induction evs arbitrary: st lastTick prev)
  case Nil
  then show ?case by (intro exI[of _ st] exI[of _ "[]"]) (simp add: extends_refl)
next
  case (Cons ev evs)
  note inv = Cons.prems(1) [unfolded muxInv_def]
  have heard_cw: "canWrite st" if "i < length (listening st) \<and> listening st ! i" for i
  proof (rule ccontr)
    assume "\<not> canWrite st"
    with inv have l: "listening st = replicate n False" by simp
    have "i < n" using that inv by simp
    then have "\<not> listening st ! i" by (subst l) simp
    with that show False by simp
  qed
  have step: "\<exists>st1 ws1 lastTick1 prev1.
      muxStep crc16 maxDataGap crcBufferSize ev st = Inr st1 \<and>
      extends crc16 st st1 ws1 \<and> list_all (wireOK n (maxDataGap + gap)) ws1 \<and>
      muxInv crc16 n maxDataGap gap lastTick1 prev1 st1 \<and> ticked gap lastTick1 prev1 evs \<and>
      (outputOpen (ev # evs) \<and> \<not> outEnded st \<longrightarrow>
         outputOpen evs \<and> \<not> outEnded st1 \<and>
         (\<forall>i. wirePayload (Suc i) ws1 @ acceptedBytes (listening st1) i evs =
               acceptedBytes (listening st) i (ev # evs)))"
  proof (cases ev)
    case (Data i d t t')
    show ?thesis
    proof (cases "i < length (listening st) \<and> listening st ! i")
      case False
      then show ?thesis
        using Cons.prems Data
        by (intro exI[of _ st] exI[of _ "[]"] exI[of _ lastTick] exI[of _ t'])
           (auto simp: extends_refl muxInv_def)
    next
      case True
      have cw: "canWrite st" using heard_cw True by blast
      have tm: "prev \<le> t" "t \<le> t'" "t' \<le> lastTick + gap" "ticked gap lastTick t' evs"
        using Cons.prems(2) Data by auto
      have h: "lastMsgTime st \<le> t" "t' - lastMsgTime st \<le> maxDataGap + gap"
        "maxDataGap + gap \<le> 65535" "0 \<le> maxDataGap" "i < n" "n \<le> 254"
        using tm inv True cw by auto
      from makeListener_step [OF cw h(1) tm(2) h(2-6), of crc16 crcBufferSize d]
      obtain st1 ws1 where s:
        "makeListener crc16 maxDataGap crcBufferSize i d t t' st = Inr st1"
        "extends crc16 st st1 ws1" "sameFlags st st1"
        "list_all (wireOK n (maxDataGap + gap)) ws1"
        "\<forall>k. wirePayload k ws1 = (if k = Suc i then d else [])"
        "listening st1 = listening st"
        "lastMsgTime st \<le> lastMsgTime st1" "lastMsgTime st1 \<le> t'"
        by blast
      have "muxInv crc16 n maxDataGap gap lastTick t' st1"
        using inv s cw by (auto simp: muxInv_def sameFlags_def)
      moreover have "outEnded st1 = outEnded st" using s(3) by (simp add: sameFlags_def)
      ultimately show ?thesis
        using s tm True Data
        by (intro exI[of _ st1] exI[of _ ws1] exI[of _ lastTick] exI[of _ t']) auto
    qed
  next
    case (Finish i t)
    have tm: "prev \<le> t" "t \<le> lastTick + gap" "ticked gap lastTick t evs"
      using Cons.prems(2) Finish by auto
    show ?thesis
    proof (cases "i < length (listening st) \<and> listening st ! i")
      case False
      then have "(listening st)[i := False] = listening st"
        by (cases "i < length (listening st)") (auto simp: list_update_same_conv list_update_beyond)
      then show ?thesis
        using Cons.prems Finish False tm
        by (intro exI[of _ st] exI[of _ "[]"] exI[of _ lastTick] exI[of _ t])
           (auto simp: extends_refl muxInv_def)
    next
      case True
      have h: "lastMsgTime st \<le> t" "canWrite st \<longrightarrow> t - lastMsgTime st \<le> maxDataGap + gap"
        "maxDataGap + gap \<le> 65535" "0 \<le> maxDataGap"
        using tm inv by auto
      from finishStream_step [OF h, of crc16 crcBufferSize i n]
      obtain st1 ws1 where s:
        "finishStream crc16 maxDataGap crcBufferSize i t st = Inr st1"
        "extends crc16 st st1 ws1" "sameFlags st st1"
        "list_all (wireOK n (maxDataGap + gap)) ws1"
        "\<forall>k. wirePayload k ws1 = []"
        "listening st1 = (listening st)[i := False]"
        "lastMsgTime st \<le> lastMsgTime st1" "lastMsgTime st1 \<le> t"
        by blast
      have cw: "canWrite st" using heard_cw True by blast
      have "muxInv crc16 n maxDataGap gap lastTick t st1"
        using inv s cw by (auto simp: muxInv_def sameFlags_def)
      moreover have "outEnded st1 = outEnded st" using s(3) by (simp add: sameFlags_def)
      ultimately show ?thesis
        using s tm True Finish
        by (intro exI[of _ st1] exI[of _ ws1] exI[of _ lastTick] exI[of _ t]) auto
    qed
  next
    case (Tick t)
    have tm: "prev \<le> t" "t \<le> lastTick + gap" "ticked gap t t evs"
      using Cons.prems(2) Tick by auto
    show ?thesis
    proof (cases "ticking st")
      case False
      then have "\<not> canWrite st" using inv by auto
      then show ?thesis
        using Cons.prems Tick False tm
        by (intro exI[of _ st] exI[of _ "[]"] exI[of _ t] exI[of _ t])
           (auto simp: extends_refl muxInv_def)
    next
      case True
      have h: "lastMsgTime st \<le> t" "canWrite st \<longrightarrow> t - lastMsgTime st \<le> maxDataGap + gap"
        "maxDataGap + gap \<le> 65535" "0 \<le> maxDataGap"
        using tm inv by auto
      from maybeSendCrc_step [OF h, of crc16 crcBufferSize n]
      obtain st1 ws1 where s:
        "maybeSendCrc crc16 maxDataGap crcBufferSize t st = Inr st1"
        "extends crc16 st st1 ws1" "sameFlags st st1"
        "list_all (wireOK n (maxDataGap + gap)) ws1"
        "\<forall>k. wirePayload k ws1 = []"
        "listening st1 = listening st"
        "lastMsgTime st \<le> lastMsgTime st1" "lastMsgTime st1 \<le> t"
        "canWrite st \<longrightarrow> t - lastMsgTime st1 \<le> maxDataGap"
        by blast
      have "muxInv crc16 n maxDataGap gap t t st1"
        using inv s by (auto simp: muxInv_def sameFlags_def)
      moreover have "outEnded st1 = outEnded st" using s(3) by (simp add: sameFlags_def)
      ultimately show ?thesis
        using s tm True Tick
        by (intro exI[of _ st1] exI[of _ ws1] exI[of _ t] exI[of _ t]) auto
    qed
  next
    case EndOutput
    have "muxInv crc16 n maxDataGap gap lastTick prev (st \<lparr> outEnded := True \<rparr>)"
      using inv by (simp add: muxInv_def)
    moreover have "extends crc16 st (st \<lparr> outEnded := True \<rparr>) []"
      by (simp add: extends_def)
    ultimately show ?thesis
      using Cons.prems(2) EndOutput
      by (intro exI[of _ "st \<lparr> outEnded := True \<rparr>"] exI[of _ "[]"] exI[of _ lastTick]
            exI[of _ prev]) auto
  next
    case OutputFinish
    show ?thesis
    proof (cases "outEnded st")
      case False
      then show ?thesis
        using Cons.prems OutputFinish
        by (intro exI[of _ st] exI[of _ "[]"] exI[of _ lastTick] exI[of _ prev])
           (auto simp: extends_refl)
    next
      case True
      obtain st1 where s:
        "stop crc16 maxDataGap crcBufferSize st = Inr st1"
        "out st1 = out st" "crc st1 = crc st" "\<not> canWrite st1"
        "lastMsgTime st1 = lastMsgTime st"
        "listening st1 = map (\<lambda>x. False) (listening st)"
        using stop_step [of crc16 maxDataGap crcBufferSize st] by auto
      have l: "listening st1 = replicate n False"
        using s(6) inv by (simp add: map_replicate_const)
      have "muxInv crc16 n maxDataGap gap lastTick prev st1"
        using inv s l by (auto simp: muxInv_def)
      moreover have "extends crc16 st st1 []"
        using s by (simp add: extends_def)
      ultimately show ?thesis
        using s Cons.prems(2) OutputFinish True
        by (intro exI[of _ st1] exI[of _ "[]"] exI[of _ lastTick] exI[of _ prev]) auto
    qed
  qed
  then obtain st1 ws1 lastTick1 prev1 where s1:
    "muxStep crc16 maxDataGap crcBufferSize ev st = Inr st1"
    "extends crc16 st st1 ws1" "list_all (wireOK n (maxDataGap + gap)) ws1"
    "muxInv crc16 n maxDataGap gap lastTick1 prev1 st1" "ticked gap lastTick1 prev1 evs"
    "outputOpen (ev # evs) \<and> \<not> outEnded st \<longrightarrow>
       outputOpen evs \<and> \<not> outEnded st1 \<and>
       (\<forall>i. wirePayload (Suc i) ws1 @ acceptedBytes (listening st1) i evs =
             acceptedBytes (listening st) i (ev # evs))"
    by blast
  from Cons.IH [OF s1(4,5)] obtain st' ws' where s2:
    "muxRun crc16 maxDataGap crcBufferSize evs st1 = Inr st'"
    "extends crc16 st1 st' ws'" "list_all (wireOK n (maxDataGap + gap)) ws'"
    "outputOpen evs \<and> \<not> outEnded st1 \<longrightarrow>
       \<not> outEnded st' \<and>
       (\<forall>i. wirePayload (Suc i) ws' = acceptedBytes (listening st1) i evs)"
    by blast
  have wp: "\<And>k a b. wirePayload k (a @ b) = wirePayload k a @ wirePayload k b"
  proof -
    fix k a b show "wirePayload k (a @ b) = wirePayload k a @ wirePayload k b"
      by (induction k a rule: wirePayload.induct) auto
  qed
  have "muxRun crc16 maxDataGap crcBufferSize (ev # evs) st = Inr st'"
    using s1(1) s2(1) by (simp add: thenE_def)
  moreover have "list_all (wireOK n (maxDataGap + gap)) (ws1 @ ws')"
    using s1(3) s2(3) by simp
  moreover have "outputOpen (ev # evs) \<and> \<not> outEnded st \<longrightarrow>
       \<not> outEnded st' \<and>
       (\<forall>i. wirePayload (Suc i) (ws1 @ ws') = acceptedBytes (listening st) i (ev # evs))"
    using s1(6) s2(4) by (auto simp: wp)
  ultimately show ?case
    using extends_trans [OF s1(2) s2(2)]
    by (intro exI[of _ st'] exI[of _ "ws1 @ ws'"]) blast
qed

lemma muxInv_init:
  assumes "n \<le> 254" "0 \<le> maxDataGap" "maxDataGap + gap \<le> 65535"
    "multiplexStreams crc16 float32 n now = Inr st0"
  shows "muxInv crc16 n maxDataGap gap now now st0"
  using assms by (auto simp: multiplexStreams_ok muxInv_def)

text \<open>
  Claim C6, as the code has it. \<^verbatim>\<open>maybeSendCrc\<close> first returns when the output is no
  longer writable. While it is writable (and the elapsed time fits the 16-bit offset
  field), it writes a control frame exactly when the elapsed time exceeds
  \<^verbatim>\<open>maxDataGap\<close>, or the bytes counted exceed \<^verbatim>\<open>crcBufferSize\<close>, or no source is
  open; any one of the three is enough. Otherwise the state is unchanged.
\<close>

theorem maybeSendCrc_emits_iff:
  assumes "0 \<le> now - lastMsgTime st" "now - lastMsgTime st \<le> 65535"
  shows "maybeSendCrc crc16 maxDataGap crcBufferSize now st =
     Inr (if canWrite st \<and> (now - lastMsgTime st > maxDataGap
                             \<or> crcProcessedBytes st > crcBufferSize \<or> streamsAlive st = 0)
          then st \<lparr> lastMsgTime := now, crcProcessedBytes := 0,
                    out := out st @ [controlFrame (now - lastMsgTime st) (crc st)],
                    crc := crc16 (controlFrame (now - lastMsgTime st) (crc st)) (crc st) \<rparr>
          else st)"
  using assms by (rule maybeSendCrc_eq)

theorem maybeSendCrc_emits_iff_witness:
  "maybeSendCrc crc16_ccitt 60000 1500 10
     \<lparr> out = [], outEnded = False, lastMsgTime = 0, crc = 0, crcProcessedBytes = 2000,
       streamsAlive = 1, canWrite = True, listening = [True], ticking = True \<rparr> =
   Inr \<lparr> out = [[0, 10, 0, 0, 0]], outEnded = False, lastMsgTime = 10,
         crc = crc16_ccitt [0, 10, 0, 0, 0] 0,
         crcProcessedBytes = 0, streamsAlive = 1, canWrite = True, listening = [True],
         ticking = True \<rparr>"
  using maybeSendCrc_emits_iff [of 10
     "\<lparr> out = [], outEnded = False, lastMsgTime = 0, crc = 0, crcProcessedBytes = 2000,
       streamsAlive = 1, canWrite = True, listening = [True], ticking = True \<rparr>"
     crc16_ccitt 60000 1500]
  by (simp add: controlFrame_def)

text \<open>
  Against claim C6 as stated: once the output has been stopped the count of open
  sources is zero, which is one of the three triggers, and no control frame is
  written.
\<close>

theorem maybeSendCrc_stopped_counterexample:
  "streamsAlive \<lparr> out = [], outEnded = True, lastMsgTime = 0, crc = 0, crcProcessedBytes = 0,
       streamsAlive = 0, canWrite = False, listening = [False], ticking = False \<rparr> = 0
   \<and> maybeSendCrc crc16_ccitt 60000 1500 10
     \<lparr> out = [], outEnded = True, lastMsgTime = 0, crc = 0, crcProcessedBytes = 0,
       streamsAlive = 0, canWrite = False, listening = [False], ticking = False \<rparr> =
   Inr \<lparr> out = [], outEnded = True, lastMsgTime = 0, crc = 0, crcProcessedBytes = 0,
       streamsAlive = 0, canWrite = False, listening = [False], ticking = False \<rparr>"
  by (simp add: maybeSendCrc_def)

text \<open>
  Claim C8, as the code has it. When a source finishes, the count of open sources goes
  down by one and the source is no longer listened to; when that was the last open
  source and the output is writable, one control frame is written. The output stream
  is left as it was: \<^verbatim>\<open>finishStream\<close> does not end it.
\<close>

theorem finishStream_closes_source:
  assumes "0 \<le> now - lastMsgTime st" "now - lastMsgTime st \<le> 65535"
  shows "\<exists>st'. finishStream crc16 maxDataGap crcBufferSize i now st = Inr st' \<and>
           streamsAlive st' = streamsAlive st - 1 \<and>
           listening st' = (listening st)[i := False] \<and>
           outEnded st' = outEnded st \<and>
           out st' =
             (if canWrite st \<and> (now - lastMsgTime st > maxDataGap
                                 \<or> crcProcessedBytes st > crcBufferSize \<or> streamsAlive st = 1)
              then out st @ [controlFrame (now - lastMsgTime st) (crc st)]
              else out st)"
  using assms
  by (simp add: finishStream_def thenE_def maybeSendCrc_eq)

theorem finishStream_closes_source_witness:
  "\<exists>st'. finishStream crc16_ccitt 60000 1500 0 20
             \<lparr> out = [], outEnded = False, lastMsgTime = 0, crc = 0, crcProcessedBytes = 0,
               streamsAlive = 1, canWrite = True, listening = [True], ticking = True \<rparr> = Inr st' \<and>
          streamsAlive st' = 0 \<and> listening st' = [False] \<and> outEnded st' = False \<and>
          out st' = [[0, 20, 0, 0, 0]]"
  using finishStream_closes_source [of 20
     "\<lparr> out = [], outEnded = False, lastMsgTime = 0, crc = 0, crcProcessedBytes = 0,
       streamsAlive = 1, canWrite = True, listening = [True], ticking = True \<rparr>"
     crc16_ccitt 60000 1500 0]
  by (simp add: controlFrame_def)

text \<open>
  Against claim C8 as stated: after the only source has finished, the output stream
  has not been ended, and the next firing of the interval writes a second control
  frame.
\<close>

theorem output_not_ended_counterexample:
  "(case thenE (multiplexStreams crc16_ccitt (\<lambda>t. 0) 1 0)
           (muxRun crc16_ccitt 60000 1500 [Finish 0 20, Tick 1000]) of
      Inl e \<Rightarrow> False
    | Inr st \<Rightarrow> \<not> outEnded st \<and> streamsAlive st = 0 \<and> listening st = [False] \<and>
                length (drop 4 (out st)) = 2)"
  by (simp add: multiplexStreams_ok thenE_def finishStream_def maybeSendCrc_eq)

text \<open>
  Claim C7. With \<^verbatim>\<open>maxDataGap\<close> 60000 and the interval firing so that no event comes
  more than \<open>gap\<close> milliseconds after its last firing (1000 for an interval that is
  on time; anything up to 5535 will do), no write of the run throws a range error,
  and every buffer written after the header encodes a control frame or the frames
  of a source buffer whose offset lies between 0 and 60000 + \<open>gap\<close>, whatever the
  events are and however long the sources stay silent. (The frames after the first
  of a source buffer carry offset 0.)
\<close>

theorem offsets_never_overflow:
  assumes "n \<le> 254" "gap \<le> 5535" "ticked gap now now evs"
  shows "\<exists>st0 st ws. multiplexStreams crc16 float32 n now = Inr st0 \<and>
           muxRun crc16 60000 crcBufferSize evs st0 = Inr st \<and>
           out st = out st0 @ map enc ws \<and>
           list_all (\<lambda>w. 0 \<le> wireOffset w \<and> wireOffset w \<le> 60000 + gap) ws"
proof -
  obtain st0 where st0: "multiplexStreams crc16 float32 n now = Inr st0"
    using assms(1) by (simp add: multiplexStreams_ok)
  have "muxInv crc16 n 60000 gap now now st0"
    using assms st0 by (intro muxInv_init) auto
  from muxRun_inv [OF this assms(3), of crcBufferSize] obtain st ws where r:
    "muxRun crc16 60000 crcBufferSize evs st0 = Inr st" "extends crc16 st0 st ws"
    "list_all (wireOK n (60000 + gap)) ws"
    by blast
  have "list_all (\<lambda>w. 0 \<le> wireOffset w \<and> wireOffset w \<le> 60000 + gap) ws"
    using r(3) by (simp add: list_all_iff wireOK_def)
  then show ?thesis
    using st0 r by (auto simp: extends_def)
qed

theorem offsets_never_overflow_witness:
  "\<exists>st0 st ws. multiplexStreams crc16_ccitt (\<lambda>t. 0) 1 0 = Inr st0 \<and>
      muxRun crc16_ccitt 60000 1500
        [Tick 1000, Tick 2000, Data 0 [65] 2500 2500, Tick 3000, Finish 0 3100] st0 = Inr st \<and>
      out st = out st0 @ map enc ws \<and>
      list_all (\<lambda>w. 0 \<le> wireOffset w \<and> wireOffset w \<le> 61000) ws"
  using offsets_never_overflow [of 1 1000 0
      "[Tick 1000, Tick 2000, Data 0 [65] 2500 2500, Tick 3000, Finish 0 3100]"
      crc16_ccitt "\<lambda>t. 0" 1500]
  by simp

section \<open>Properties of the demultiplexer\<close>

declare parseLoop.simps [simp del]

lemma parseBufferWrapped_header_error:
  assumes "\<not> parsedHead st" "buffered st \<noteq> []" "headParser_parse (buffered st) = None"
  shows "parseBufferWrapped crc16 parseJSON useRealOffsets now st = (Some HeaderParseError, st)"
  using assms
  by (simp add: parseBufferWrapped_def parseBuffer_def parseHead_def headParserWrapped_def
      wrapFnException_def)

lemma unat_byte: "0 \<le> v \<Longrightarrow> v < 256 \<Longrightarrow> unat (word_of_int v :: byte) = nat v"
  by (simp add: unat_eq_nat_uint uint_word_of_int take_bit_eq_mod)

lemma readUInt16LE_le:
  assumes "0 \<le> v" "v \<le> 65535"
  shows "readUInt16LE (word_of_int (v mod 256)) (word_of_int (v div 256)) = nat v"
proof -
  have "v div 256 < 256" using assms by simp
  moreover have "0 \<le> v div 256" using assms by simp
  ultimately have "unat (word_of_int (v div 256) :: byte) = nat (v div 256)"
    by (rule unat_byte [rotated])
  moreover have "unat (word_of_int (v mod 256) :: byte) = nat (v mod 256)"
    by (rule unat_byte) auto
  ultimately show ?thesis
    using assms unfolding readUInt16LE_def
    by (simp add: nat_mod_distrib nat_div_distrib flip: nat_mult_distrib nat_add_distrib)
qed

lemma word16_of_bytes:
  "word_of_nat (readUInt16LE (word_of_int (uint w mod 256)) (word_of_int (uint w div 256))) = (w :: 16 word)"
proof -
  have "uint w \<le> 65535" using uint_lt2p [of w] by simp
  then have "readUInt16LE (word_of_int (uint w mod 256)) (word_of_int (uint w div 256)) = nat (uint w)"
    by (intro readUInt16LE_le) auto
  then show ?thesis by simp
qed

lemma parse_controlFrame:
  assumes "0 \<le> offset" "offset \<le> 65535"
  shows "streamChunkParser_parse (controlFrame offset w @ rest) = Some (ControlChunk offset w)"
  using assms by (simp add: controlFrame_def readUInt16LE_le word16_of_bytes)

lemma slice_0: "0 \<le> n \<Longrightarrow> slice b 0 n = take (nat n) b"
  by (auto simp: slice_def jsIndex_def Let_def min_def)

lemma sliceFrom_drop: "0 \<le> n \<Longrightarrow> sliceFrom b n = drop (nat n) b"
  by (auto simp: sliceFrom_def jsIndex_def min_def)

lemma parseLoop_ctrl_step:
  assumes "buffered st = controlFrame offset w @ rest" "0 \<le> offset" "offset \<le> 65535"
    "chunksCrc st = w"
  shows "parseLoop crc16 st =
           parseLoop crc16 (st \<lparr> chunksCrc := crc16 (controlFrame offset w) w, buffered := rest \<rparr>)"
proof -
  have l: "length (controlFrame offset w) = 5" by (simp add: controlFrame_def)
  show ?thesis
    using assms
    by (subst parseLoop.simps)
       (simp add: parse_controlFrame chunkBufSize_def slice_0 sliceFrom_drop l)
qed

lemma parseLoop_ctrl_bad:
  assumes "buffered st = controlFrame offset w @ rest" "0 \<le> offset" "offset \<le> 65535"
    "chunksCrc st \<noteq> w"
  shows "parseLoop crc16 st = (Some CRCValidationError, st)"
  using assms by (subst parseLoop.simps) (simp add: parse_controlFrame)

lemma parseLoop_unfold:
  "parseLoop crc16 st =
     (case streamChunkParser_parse (buffered st) of
        None \<Rightarrow> (None, st)
      | Some c \<Rightarrow>
          if c_streamId c = 0
          then (if Some (chunksCrc st) \<noteq> c_crc c then (Some CRCValidationError, st)
                else parseLoop crc16
                       (st \<lparr> chunksCrc := crc16 (slice (buffered st) 0 (chunkBufSize c)) (chunksCrc st),
                             buffered := sliceFrom (buffered st) (chunkBufSize c) \<rparr>))
          else parseLoop crc16
                 (st \<lparr> unprocessedChunks := unprocessedChunks st @ [c],
                       chunksCrc := crc16 (slice (buffered st) 0 (chunkBufSize c)) (chunksCrc st),
                       buffered := sliceFrom (buffered st) (chunkBufSize c) \<rparr>))"
  by (subst parseLoop.simps) (auto simp: Let_def split: option.splits)

lemma parseLoop_induct_rule [consumes 0, case_names stop bad ctrl data]:
  assumes "\<And>st. streamChunkParser_parse (buffered st) = None \<Longrightarrow> P st"
    and "\<And>st c. streamChunkParser_parse (buffered st) = Some c \<Longrightarrow> c_streamId c = 0 \<Longrightarrow>
           Some (chunksCrc st) \<noteq> c_crc c \<Longrightarrow> P st"
    and "\<And>st c. streamChunkParser_parse (buffered st) = Some c \<Longrightarrow> c_streamId c = 0 \<Longrightarrow>
           Some (chunksCrc st) = c_crc c \<Longrightarrow>
           P (st \<lparr> chunksCrc := cs (slice (buffered st) 0 (chunkBufSize c)) (chunksCrc st),
                   buffered := sliceFrom (buffered st) (chunkBufSize c) \<rparr>) \<Longrightarrow> P st"
    and "\<And>st c. streamChunkParser_parse (buffered st) = Some c \<Longrightarrow> c_streamId c \<noteq> 0 \<Longrightarrow>
           P (st \<lparr> unprocessedChunks := unprocessedChunks st @ [c],
                   chunksCrc := cs (slice (buffered st) 0 (chunkBufSize c)) (chunksCrc st),
                   buffered := sliceFrom (buffered st) (chunkBufSize c) \<rparr>) \<Longrightarrow> P st"
  shows "P (st :: 'j dstate)"
proof (induction "length (buffered st)" arbitrary: st rule: less_induct)
  case less
  show ?case
  proof (cases "streamChunkParser_parse (buffered st)")
    case None
    then show ?thesis by (rule assms(1))
  next
    case (Some c)
    then have "buffered st \<noteq> []" by auto
    then have shorter: "length (sliceFrom (buffered st) (chunkBufSize c)) < length (buffered st)"
      using chunkBufSize_pos [of c] by (intro sliceFrom_shorter)
    show ?thesis
    proof (cases "c_streamId c = 0")
      case True
      show ?thesis
      proof (cases "Some (chunksCrc st) = c_crc c")
        case False
        with Some True show ?thesis by (intro assms(2))
      next
        case eq: True
        have "P (st \<lparr> chunksCrc := cs (slice (buffered st) 0 (chunkBufSize c)) (chunksCrc st),
                   buffered := sliceFrom (buffered st) (chunkBufSize c) \<rparr>)"
          using shorter by (intro less) simp
        then show ?thesis by (rule assms(3) [OF Some True eq])
      qed
    next
      case False
      have "P (st \<lparr> unprocessedChunks := unprocessedChunks st @ [c],
                   chunksCrc := cs (slice (buffered st) 0 (chunkBufSize c)) (chunksCrc st),
                   buffered := sliceFrom (buffered st) (chunkBufSize c) \<rparr>)"
        using shorter by (intro less) simp
      then show ?thesis by (rule assms(4) [OF Some False])
    qed
  qed
qed

lemma parseLoop_frame:
  "parseLoop crc16 st = (ex, st') \<Longrightarrow>
   st' = st \<lparr> buffered := buffered st', unprocessedChunks := unprocessedChunks st',
              chunksCrc := chunksCrc st' \<rparr>"
proof (induction st rule: parseLoop_induct_rule [where cs = crc16])
  case (stop st)
  then show ?case by (subst (asm) parseLoop_unfold) simp
next
  case (bad st c)
  then show ?case by (subst (asm) parseLoop_unfold) simp
next
  case (ctrl st c)
  from ctrl(1,2,3,5) have
    "parseLoop crc16 (st \<lparr> chunksCrc := crc16 (slice (buffered st) 0 (chunkBufSize c)) (chunksCrc st),
                   buffered := sliceFrom (buffered st) (chunkBufSize c) \<rparr>) = (ex, st')"
    by (subst (asm) parseLoop_unfold) simp
  from ctrl(4) [OF this] show ?case by simp
next
  case (data st c)
  from data(1,2,4) have
    "parseLoop crc16 (st \<lparr> unprocessedChunks := unprocessedChunks st @ [c],
                   chunksCrc := crc16 (slice (buffered st) 0 (chunkBufSize c)) (chunksCrc st),
                   buffered := sliceFrom (buffered st) (chunkBufSize c) \<rparr>) = (ex, st')"
    by (subst (asm) parseLoop_unfold) simp
  from data(3) [OF this] show ?case by simp
qed

lemma parseBufferWrapped_header_crc:
  assumes "\<not> parsedHead st" "headParser_parse (buffered st) = Some head"
    "h_crc head \<noteq> crc16 (slice (buffered st) 5 (h_headerLen head - 2)) 0"
  shows "parseBufferWrapped crc16 parseJSON useRealOffsets now st =
           (None, st \<lparr> buffered := sliceFrom (buffered st) (h_headerLen head),
                        inputEnded := True,
                        callbacks := callbacks st @ [CbError CRCValidationError] \<rparr>)"
proof -
  have "buffered st \<noteq> []"
    using assms(2) by (cases "buffered st") auto
  then show ?thesis
    using assms
    by (simp add: parseBufferWrapped_def parseBuffer_def parseHead_def headParserWrapped_def
        wrapFnException_def Let_def)
qed

lemma updateSink_sinks: "sinks (updateSink f v st) = (sinks st)[v := f (sinks st ! v)]"
  by (simp add: updateSink_def)

lemma updateSink_over: "(updateSink f v st) \<lparr> sinks := B \<rparr> = st \<lparr> sinks := B \<rparr>"
  by (simp add: updateSink_def)

lemma fold_updateSink_frame:
  "fold (updateSink f) vs st = st \<lparr> sinks := sinks (fold (updateSink f) vs st) \<rparr>"
proof (induction vs arbitrary: st)
  case Nil
  show ?case by simp
next
  case (Cons v vs)
  have "fold (updateSink f) vs (updateSink f v st) =
          (updateSink f v st) \<lparr> sinks := sinks (fold (updateSink f) vs (updateSink f v st)) \<rparr>"
    by (rule Cons.IH)
  then have "fold (updateSink f) vs (updateSink f v st) =
          st \<lparr> sinks := sinks (fold (updateSink f) vs (updateSink f v st)) \<rparr>"
    by (simp only: updateSink_over)
  then show ?case by simp
qed

lemma fold_updateSink_sinks:
  assumes "distinct vs" "\<forall>i \<in> set vs. i < length (sinks st)"
  shows "length (sinks (fold (updateSink f) vs st)) = length (sinks st) \<and>
         (\<forall>i < length (sinks st). sinks (fold (updateSink f) vs st) ! i =
             (if i \<in> set vs then f (sinks st ! i) else sinks st ! i))"
  using assms
proof (induction vs arbitrary: st)
  case Nil
  show ?case by simp
next
  case (Cons v vs)
  let ?st1 = "updateSink f v st"
  have l: "length (sinks ?st1) = length (sinks st)" by (simp add: updateSink_sinks)
  have "distinct vs" "\<forall>i \<in> set vs. i < length (sinks ?st1)"
    using Cons.prems l by auto
  from Cons.IH [OF this] have ih:
    "length (sinks (fold (updateSink f) vs ?st1)) = length (sinks st)"
    "\<forall>i < length (sinks st). sinks (fold (updateSink f) vs ?st1) ! i =
        (if i \<in> set vs then f (sinks ?st1 ! i) else sinks ?st1 ! i)"
    using l by auto
  have v: "v \<notin> set vs" "v < length (sinks st)" using Cons.prems by auto
  have "\<forall>i < length (sinks st). sinks (fold (updateSink f) vs ?st1) ! i =
          (if i \<in> set (v # vs) then f (sinks st ! i) else sinks st ! i)"
  proof (intro allI impI)
    fix i assume i: "i < length (sinks st)"
    show "sinks (fold (updateSink f) vs ?st1) ! i =
          (if i \<in> set (v # vs) then f (sinks st ! i) else sinks st ! i)"
      using ih(2) i v by (cases "i = v") (auto simp: updateSink_sinks)
  qed
  then show ?case using ih(1) by simp
qed

lemma dictGet_None: "dictGet d k = None \<longleftrightarrow> k \<notin> fst ` set d"
  by (simp add: dictGet_def map_of_eq_None_iff)

lemma parseBufferWrapped_type_error:
  assumes "parsedHead st0" "buffered st0 \<noteq> []" "parseLoop crc16 st0 = (None, st1)"
    "processChunks useRealOffsets now (st1 \<lparr> chunkProcessor := None \<rparr>) = (Some TypeError, st2)"
    "parsedHead st2"
  shows "parseBufferWrapped crc16 parseJSON useRealOffsets now st0 = (Some TypeError, st2)"
  using assms by (simp add: parseBufferWrapped_def parseBuffer_def)


lemma parse_dataFrame:
  assumes "1 \<le> sid" "sid \<le> 255" "0 \<le> offset" "offset \<le> 65535" "length d \<le> 255"
  shows "streamChunkParser_parse (dataFrame (int sid) offset d @ rest) =
           Some (DataChunk sid offset d)"
proof -
  have s: "unat (word_of_int (int sid) :: byte) = sid"
    using assms unat_byte [of "int sid"] by simp
  then have s0: "(word_of_int (int sid) :: byte) \<noteq> 0"
    using assms by (metis not_one_le_zero unat_0)
  have l: "unat (word_of_int (int (length d)) :: byte) = length d"
    using assms unat_byte [of "int (length d)"] by simp
  show ?thesis
    using assms s s0 l by (simp add: dataFrame_def readUInt16LE_le)
qed

lemma parse_encChunk:
  "wfChunk n c \<Longrightarrow> n \<le> 255 \<Longrightarrow> streamChunkParser_parse (encChunk c @ rest) = Some c"
  by (cases c) (auto simp: wfChunk_def parse_controlFrame parse_dataFrame)

lemma encChunk_length:
  "length (encChunk c) = nat (chunkBufSize c)" if "wfChunk n c"
  using that by (cases c) (auto simp: wfChunk_def controlFrame_def dataFrame_def chunkBufSize_def)





































lemma dictGet_zip_iff:
  assumes "distinct ks" "length vs = length ks"
  shows "dictGet (zipObject ks vs) k = Some v \<longleftrightarrow> (k, v) \<in> set (zip ks vs)"
proof -
  have "distinct (map fst (rev (zip ks vs)))"
    using assms by (simp add: rev_map [symmetric])
  then have "map_of (rev (zip ks vs)) k = Some v \<longleftrightarrow> (k, v) \<in> set (rev (zip ks vs))"
    by (rule map_of_eq_Some_iff)
  then show ?thesis by (simp add: dictGet_def zipObject_def)
qed

lemma dictValues_zip:
  assumes "distinct ks" "length vs = length ks" "distinct vs"
  shows "set (dictValues (zipObject ks vs)) = set vs \<and> distinct (dictValues (zipObject ks vs))"
proof -
  let ?d = "zipObject ks vs"
  let ?f = "\<lambda>k. the (dictGet ?d k)"
  have keys: "sort (remdups (map fst ?d)) = sort ks"
    using assms by (simp add: zipObject_def distinct_remdups_id)
  have nth: "?f (ks ! j) = vs ! j" if "j < length ks" for j
  proof -
    have "(ks ! j, vs ! j) \<in> set (zip ks vs)"
      using that assms(2) by (auto simp: in_set_zip)
    then have "dictGet ?d (ks ! j) = Some (vs ! j)"
      using dictGet_zip_iff [OF assms(1,2)] by simp
    then show ?thesis by simp
  qed
  have img: "?f ` set ks = set vs"
  proof (intro equalityI subsetI)
    fix v assume "v \<in> ?f ` set ks"
    then obtain j where "j < length ks" "v = ?f (ks ! j)"
      by (auto simp: in_set_conv_nth)
    then show "v \<in> set vs" using nth assms(2) by simp
  next
    fix v assume "v \<in> set vs"
    then obtain j where j: "j < length vs" "v = vs ! j"
      by (auto simp: in_set_conv_nth)
    then have "v = ?f (ks ! j)" using nth assms(2) by simp
    then show "v \<in> ?f ` set ks" using j assms(2) by auto
  qed
  have inj: "inj_on ?f (set ks)"
  proof (rule inj_onI)
    fix a b assume "a \<in> set ks" "b \<in> set ks" "?f a = ?f b"
    then obtain i j where ij: "i < length ks" "a = ks ! i" "j < length ks" "b = ks ! j"
      "?f a = ?f b"
      by (auto simp: in_set_conv_nth)
    then have "vs ! i = vs ! j" using nth by simp
    then have "i = j" using assms(2,3) ij by (simp add: nth_eq_iff_index_eq)
    then show "a = b" using ij by simp
  qed
  have "set (dictValues ?d) = ?f ` set ks"
    by (simp add: dictValues_def keys)
  moreover have "distinct (dictValues ?d)"
    using inj assms(1) by (simp add: dictValues_def keys distinct_map)
  ultimately show ?thesis using img by simp
qed

lemma updateSink_listeners [simp]: "errorListeners (updateSink f v st) = errorListeners st"
  by (simp add: updateSink_def)

lemma emitErrors_all:
  "\<forall>i \<in> set vs. i \<in> errorListeners st \<Longrightarrow>
   emitErrors e vs st = (None, fold (updateSink (sinkEmitError e)) vs st)"
  by (induction vs arbitrary: st) (simp_all add: emitError_def)

lemma emitErrors_some:
  assumes "\<exists>i \<in> set vs. i \<notin> errorListeners st"
  shows "\<exists>st'. emitErrors e vs st = (Some e, st') \<and> st' = st \<lparr> sinks := sinks st' \<rparr> \<and>
           length (sinks st') = length (sinks st) \<and>
           (\<forall>i < length (sinks st).
              written (sinks st' ! i) = written (sinks st ! i) \<and>
              ended (sinks st' ! i) = ended (sinks st ! i) \<and>
              (i \<notin> errorListeners st \<longrightarrow> sinks st' ! i = sinks st ! i))"
  using assms
proof (induction vs arbitrary: st)
  case Nil
  then show ?case by simp
next
  case (Cons v vs)
  show ?case
  proof (cases "v \<in> errorListeners st")
    case False
    then show ?thesis by (simp add: emitError_def)
  next
    case True
    let ?st1 = "updateSink (sinkEmitError e) v st"
    have "\<exists>i \<in> set vs. i \<notin> errorListeners ?st1"
      using Cons.prems True by auto
    from Cons.IH [OF this] obtain st' where ih:
      "emitErrors e vs ?st1 = (Some e, st')" "st' = ?st1 \<lparr> sinks := sinks st' \<rparr>"
      "length (sinks st') = length (sinks ?st1)"
      "\<forall>i < length (sinks ?st1).
          written (sinks st' ! i) = written (sinks ?st1 ! i) \<and>
          ended (sinks st' ! i) = ended (sinks ?st1 ! i) \<and>
          (i \<notin> errorListeners ?st1 \<longrightarrow> sinks st' ! i = sinks ?st1 ! i)"
      by blast
    have l: "length (sinks ?st1) = length (sinks st)" by (simp add: updateSink_sinks)
    have s1: "written (sinks ?st1 ! i) = written (sinks st ! i) \<and>
              ended (sinks ?st1 ! i) = ended (sinks st ! i) \<and>
              (i \<notin> errorListeners st \<longrightarrow> sinks ?st1 ! i = sinks st ! i)"
      if "i < length (sinks st)" for i
      using that True by (cases "i = v") (auto simp: updateSink_sinks sinkEmitError_def)
    have "emitErrors e (v # vs) st = (Some e, st')"
      using True ih(1) by (simp add: emitError_def)
    moreover have "st' = st \<lparr> sinks := sinks st' \<rparr>"
      by (subst ih(2)) (simp add: updateSink_over)
    ultimately show ?thesis
      using ih(3,4) l s1 by (intro exI[of _ st']) auto
  qed
qed

lemma parseLoop_bad_after:
  assumes "list_all (wfChunk n) fs" "n \<le> 255" "frameChain crc16 (chunksCrc st) fs"
    "0 \<le> offset" "offset \<le> 65535"
    "w \<noteq> foldl (\<lambda>c f. crc16 (encChunk f) c) (chunksCrc st) fs"
    "buffered st = concat (map encChunk fs) @ controlFrame offset w @ rest"
  shows "parseLoop crc16 st =
           (Some CRCValidationError,
            st \<lparr> unprocessedChunks := unprocessedChunks st @ dataChunks fs,
                 chunksCrc := foldl (\<lambda>c f. crc16 (encChunk f) c) (chunksCrc st) fs,
                 buffered := controlFrame offset w @ rest \<rparr>)"
  using assms(1,3,6,7)
proof (induction fs arbitrary: st)
  case Nil
  have "parseLoop crc16 st = (Some CRCValidationError, st)"
    using Nil assms(4,5) by (intro parseLoop_ctrl_bad [of _ offset w rest]) auto
  then show ?case using Nil by (simp add: dataChunks_def)
next
  case (Cons f fs)
  have wf: "wfChunk n f" "list_all (wfChunk n) fs" using Cons.prems(1) by auto
  let ?p' = "concat (map encChunk fs) @ controlFrame offset w @ rest"
  have b: "buffered st = encChunk f @ ?p'" using Cons.prems(4) by simp
  have ps: "streamChunkParser_parse (buffered st) = Some f"
    unfolding b by (rule parse_encChunk [OF wf(1) assms(2)])
  have len: "length (encChunk f) = nat (chunkBufSize f)" by (rule encChunk_length [OF wf(1)])
  have sl: "slice (buffered st) 0 (chunkBufSize f) = encChunk f"
    "sliceFrom (buffered st) (chunkBufSize f) = ?p'"
    using b len chunkBufSize_pos [of f] by (simp_all add: slice_0 sliceFrom_drop)
  let ?st1 = "st \<lparr> unprocessedChunks := unprocessedChunks st @ dataChunks [f],
                   chunksCrc := crc16 (encChunk f) (chunksCrc st), buffered := ?p' \<rparr>"
  have step: "parseLoop crc16 st = parseLoop crc16 ?st1"
  proof (cases f)
    case (ControlChunk offset' w')
    then have "w' = chunksCrc st" using Cons.prems(2) by simp
    then show ?thesis
      using ps ControlChunk sl
      by (subst parseLoop_unfold) (simp add: dataChunks_def)
  next
    case (DataChunk sid offset' d)
    then have "sid \<noteq> 0" using wf(1) by (auto simp: wfChunk_def)
    then show ?thesis
      using ps DataChunk sl
      by (subst parseLoop_unfold) (simp add: dataChunks_def)
  qed
  have ch: "frameChain crc16 (chunksCrc ?st1) fs"
    using Cons.prems(2) by (cases f) simp_all
  have w1: "w \<noteq> foldl (\<lambda>c f. crc16 (encChunk f) c) (chunksCrc ?st1) fs"
    using Cons.prems(3) by simp
  have b1: "buffered ?st1 = ?p'" by simp
  from Cons.IH [OF wf(2) ch w1 b1] step
  show ?case by (simp add: dataChunks_def)
qed

lemma noData_run_idle:
  assumes "sinks st = []" "streamDict st = []" "immediates st = 0" "chunkProcessor st = None"
    "noData devs" "demuxRun crc16 parseJSON useRealOffsets devs st = Some (ex, dst)"
  shows "ex = None \<and> callbacks dst = callbacks st \<and> sinks dst = [] \<and>
         buffered dst = buffered st \<and> parsedHead dst = parsedHead st \<and>
         immediates dst = 0 \<and> chunkProcessor dst = None \<and>
         (inputEnded st \<longrightarrow> inputEnded dst)"
  using assms
proof (induction devs arbitrary: st)
  case Nil
  then show ?case by simp
next
  case (Cons ev devs)
  have es: "endStreams st = st"
    using Cons.prems(2) by (simp add: endStreams_def dictValues_def)
  show ?case
  proof (cases ev)
    case (DData d now)
    then show ?thesis using Cons.prems(5) by simp
  next
    case (DImmediate now)
    then show ?thesis using Cons.prems(3,6) by simp
  next
    case (DTimer now)
    then show ?thesis using Cons.prems(4,6) by simp
  next
    case (DOnError i)
    then show ?thesis using Cons.prems(1,6) by simp
  next
    case DEnd
    let ?st1 = "st \<lparr> inputEnded := True \<rparr>"
    have "demuxRun crc16 parseJSON useRealOffsets devs ?st1 = Some (ex, dst)"
      using Cons.prems(6) DEnd by simp
    from Cons.IH [OF _ _ _ _ _ this] Cons.prems DEnd show ?thesis by simp
  next
    case DFinish
    let ?st1 = "st \<lparr> inputFinished := True \<rparr>"
    have en: "inputEnded st \<and> \<not> inputFinished st"
      using Cons.prems(6) DFinish by (auto split: if_splits)
    then have "demuxRun crc16 parseJSON useRealOffsets devs ?st1 = Some (ex, dst)"
      using Cons.prems(6) DFinish es by simp
    from Cons.IH [OF _ _ _ _ _ this] Cons.prems DFinish en show ?thesis by simp
  qed
qed

text \<open>
  Checksums of the concrete headers and frames that the examples below feed in, and
  the steps on them that the examples share.
\<close>

lemma crc_header_body_1:
  "crc16_ccitt [1, 0, 0, 0, 0, 1, 8, 0, 0, 0, 123, 34, 105, 100, 34, 58, 49, 125] 0 = 176"
  by (simp add: crc16_ccitt_def crcByte_def crcShift_def)

lemma crc_header_body_2:
  "crc16_ccitt [2, 0, 0, 0, 0, 1, 8, 0, 0, 0, 123, 34, 105, 100, 34, 58, 49, 125,
                2, 8, 0, 0, 0, 123, 34, 105, 100, 34, 58, 50, 125] 0 = 7036"
  by (simp add: crc16_ccitt_def crcByte_def crcShift_def)

lemma crc_header_body_dup:
  "crc16_ccitt [2, 0, 0, 0, 0, 1, 8, 0, 0, 0, 123, 34, 105, 100, 34, 58, 49, 125,
                1, 8, 0, 0, 0, 123, 34, 105, 100, 34, 58, 49, 125] 0 = 33162"
  by (simp add: crc16_ccitt_def crcByte_def crcShift_def)

lemma crc_frame_2_5_A: "crc16_ccitt [2, 5, 0, 1, 65] 0 = 37650"
  by (simp add: crc16_ccitt_def crcByte_def crcShift_def)

lemma parseMetas_2: "parseMetas 2 buf = parseMetas (Suc (Suc 0)) buf"
  by (simp add: numeral_2_eq_2)

lemmas header_eval = parseMetas_2
  demultiplexStream_def parseBufferWrapped_def parseBuffer_def parseHead_def
  headParserWrapped_def wrapFnException_def Let_def readUInt32LE_def readUInt16LE_def
  slice_def sliceFrom_def jsIndex_def zipObject_def processChunks_def newPassThrough_def

lemma header2_step:
  "demuxStep crc16_ccitt (\<lambda>b. Some b) False
     (DData [1, 38, 0, 0, 0, 2, 0, 0, 0, 0, 1, 8, 0, 0, 0, 123, 34, 105, 100, 34, 58, 49, 125,
             2, 8, 0, 0, 0, 123, 34, 105, 100, 34, 58, 50, 125, 124, 27] 0)
     demultiplexStream =
   Some (None, demultiplexStream \<lparr> parsedHead := True,
            sinks := [newPassThrough, newPassThrough],
            streamDict := [(1, 0), (2, 1)], immediates := 1,
            callbacks := [CbReady [0, 1] [[123, 34, 105, 100, 34, 58, 49, 125],
                                          [123, 34, 105, 100, 34, 58, 50, 125]]] \<rparr>)"
  by (simp add: header_eval crc_header_body_2)

lemma bad_frame_after_data:
  assumes "buffered st = [2, 5, 0, 1, 65, 0, 10, 0, 99, 99]" "chunksCrc st = 0"
  shows "parseLoop crc16_ccitt st =
           (Some CRCValidationError,
            st \<lparr> unprocessedChunks := unprocessedChunks st @ [DataChunk 2 5 [65]],
                 chunksCrc := 37650, buffered := [0, 10, 0, 99, 99] \<rparr>)"
proof -
  have "parseLoop crc16_ccitt st =
           (Some CRCValidationError,
            st \<lparr> unprocessedChunks := unprocessedChunks st @ dataChunks [DataChunk 2 5 [65]],
                 chunksCrc := foldl (\<lambda>c f. crc16_ccitt (encChunk f) c) (chunksCrc st)
                                [DataChunk 2 5 [65]],
                 buffered := controlFrame 10 25443 @ [] \<rparr>)"
    using assms
    by (intro parseLoop_bad_after [of 255])
       (simp_all add: wfChunk_def dataFrame_def controlFrame_def crc_frame_2_5_A)
  then show ?thesis
    using assms by (simp add: dataChunks_def dataFrame_def controlFrame_def crc_frame_2_5_A)
qed

lemma crcChain_nth:
  "crcChain crc16 c ws \<Longrightarrow> i < length ws \<Longrightarrow> ws ! i = WCtrl offset w \<Longrightarrow>
   w = foldl (\<lambda>c b. crc16 b c) c (map enc (take i ws))"
proof (induction ws arbitrary: c i)
  case Nil
  then show ?case by simp
next
  case (Cons x ws)
  show ?case
  proof (cases i)
    case 0
    then show ?thesis using Cons.prems by simp
  next
    case (Suc j)
    have "crcChain crc16 (crc16 (enc x) c) ws"
      using Cons.prems(1) by (cases x) simp_all
    from Cons.IH [OF this, of j] Cons.prems(2,3) Suc show ?thesis by simp
  qed
qed

lemma dataFrames_hd:
  "hd (dataFrames streamId offset d) = word_of_int streamId"
  by (simp add: dataFrames_def dataFrame_def)

lemma wire_first_byte:
  assumes "wireOK n bound x" "n \<le> 254"
  shows "hd (enc x) = 0 \<longleftrightarrow> (\<exists>offset w. x = WCtrl offset w)"
proof (cases x)
  case (WCtrl offset w)
  then show ?thesis by (simp add: controlFrame_def)
next
  case (WData sid offset d)
  then have s: "1 \<le> sid" "sid \<le> 254" using assms by (auto simp: wireOK_def)
  have "unat (word_of_int (int sid) :: byte) = sid"
    using s unat_byte [of "int sid"] by simp
  then have "(word_of_int (int sid) :: byte) \<noteq> 0"
    using s by (metis not_one_le_zero unat_0)
  then show ?thesis using WData by (simp add: dataFrames_hd)
qed

lemma crc_frame_1_10_A: "crc16_ccitt [1, 10, 0, 1, 65] 0 = 43310"
  by (simp add: crc16_ccitt_def crcByte_def crcShift_def)

lemma crc_ctrl_after_A: "crc16_ccitt [0, 0, 0, 46, 169] 43310 = 5670"
  by (simp add: crc16_ccitt_def crcByte_def crcShift_def)

lemma crc_frame_1_10_B: "crc16_ccitt [1, 10, 0, 1, 66] 5670 = 16453"
  by (simp add: crc16_ccitt_def crcByte_def crcShift_def)

lemma crc_ctrl_after_B: "crc16_ccitt [0, 0, 0, 69, 64] 16453 = 31052"
  by (simp add: crc16_ccitt_def crcByte_def crcShift_def)

lemma two_buffers_run:
  "multiplexStreams crc16_ccitt (\<lambda>t. 0) 1 0 = Inr st0 \<Longrightarrow>
   \<exists>st. muxRun crc16_ccitt 60000 3 [Data 0 [65] 10 10, Data 0 [66] 20 20] st0 = Inr st \<and>
        out st = out st0 @ [[1, 10, 0, 1, 65], [0, 0, 0, 46, 169],
                            [1, 10, 0, 1, 66], [0, 0, 0, 69, 64]] \<and>
        crc st = 31052"
  by (auto simp: multiplexStreams_ok thenE_def makeListener_def Let_def streamIdOffset_def
      mkStreamChunkBuf_short dataFrame_def maybeSendCrc_eq controlFrame_def
      crc_frame_1_10_A crc_ctrl_after_A crc_frame_1_10_B crc_ctrl_after_B)









section \<open>Results on the demultiplexer\<close>

text \<open>
  Claim C9, against the code. A buffer that does not hold a whole header makes the
  wrapped header parser throw a \<^verbatim>\<open>HeaderParseError\<close>. The handler of
  \<^verbatim>\<open>parseBufferWrapped\<close> keeps that error away from the callback, does not take
  the checksum branch either, and reaches \<^verbatim>\<open>throw e\<close>: the error leaves the
  \<^verbatim>\<open>data\<close> listener uncaught. The buffered bytes are kept, and no further parse is
  scheduled.
\<close>

theorem incomplete_header_is_rethrown:
  assumes "\<not> parsedHead st" "buffered st @ data \<noteq> []"
    "headParser_parse (buffered st @ data) = None"
  shows "demuxStep crc16 parseJSON useRealOffsets (DData data now) st =
           Some (Some HeaderParseError, st \<lparr> buffered := buffered st @ data \<rparr>)"
  using assms by (simp add: parseBufferWrapped_header_error)

theorem incomplete_header_is_rethrown_witness:
  "demuxStep crc16_ccitt (\<lambda>b. Some b) False (DData [1] 0) demultiplexStream =
     Some (Some HeaderParseError, demultiplexStream \<lparr> buffered := [1] \<rparr>)"
  using incomplete_header_is_rethrown [of demultiplexStream "[1]" crc16_ccitt "\<lambda>b. Some b" False 0]
  by (simp add: demultiplexStream_def)

text \<open>
  Claim C4, as the code has it. When the buffer decodes as a header whose checksum
  field differs from the checksum of the header body, the step of the \<^verbatim>\<open>data\<close>
  event ends without an uncaught exception: it has called the callback once, with
  the checksum error, has ended the input, and has changed nothing else but the
  buffer, so no stream has been created, none has seen an event, and nothing is
  scheduled. The failure is not recorded anywhere and the \<^verbatim>\<open>data\<close> listener stays:
  as long as the input emits no further buffer, whatever else happens, the callback
  has been called exactly once in all, with the error, and there is no stream.
\<close>

theorem header_checksum_mismatch:
  assumes "\<not> parsedHead st"
    "headParser_parse (buffered st @ data) = Some head"
    "h_crc head \<noteq> crc16 (slice (buffered st @ data) 5 (h_headerLen head - 2)) 0"
  shows "demuxStep crc16 parseJSON useRealOffsets (DData data now) st =
           Some (None, st \<lparr> buffered := sliceFrom (buffered st @ data) (h_headerLen head),
                             inputEnded := True,
                             callbacks := callbacks st @ [CbError CRCValidationError] \<rparr>)
         \<and> (\<forall>devs ex dst.
               st = demultiplexStream \<and> noData devs \<and>
               demuxRun crc16 parseJSON useRealOffsets (DData data now # devs) st = Some (ex, dst)
               \<longrightarrow> ex = None \<and> callbacks dst = [CbError CRCValidationError] \<and> sinks dst = [] \<and>
                   inputEnded dst \<and> \<not> parsedHead dst \<and>
                   immediates dst = 0 \<and> chunkProcessor dst = None)"
proof -
  let ?st1 = "st \<lparr> buffered := sliceFrom (buffered st @ data) (h_headerLen head),
                   inputEnded := True,
                   callbacks := callbacks st @ [CbError CRCValidationError] \<rparr>"
  have step: "demuxStep crc16 parseJSON useRealOffsets (DData data now) st = Some (None, ?st1)"
    using assms
      parseBufferWrapped_header_crc [of "st \<lparr> buffered := buffered st @ data \<rparr>" head crc16
        parseJSON useRealOffsets now]
    by simp
  have run: "ex = None \<and> callbacks dst = [CbError CRCValidationError] \<and> sinks dst = [] \<and>
             inputEnded dst \<and> \<not> parsedHead dst \<and> immediates dst = 0 \<and> chunkProcessor dst = None"
    if h: "st = demultiplexStream" "noData devs"
      "demuxRun crc16 parseJSON useRealOffsets (DData data now # devs) st = Some (ex, dst)"
    for devs ex dst
  proof -
    have r: "demuxRun crc16 parseJSON useRealOffsets devs ?st1 = Some (ex, dst)"
      using h(3) step by simp
    have i: "sinks ?st1 = []" "streamDict ?st1 = []" "immediates ?st1 = 0"
      "chunkProcessor ?st1 = None"
      using h(1) by (simp_all add: demultiplexStream_def)
    from noData_run_idle [OF i h(2) r] show ?thesis
      using h(1) by (simp add: demultiplexStream_def)
  qed
  show ?thesis using step run by blast
qed

theorem header_checksum_mismatch_witness:
  "demuxStep crc16_ccitt (\<lambda>b. Some b) False
     (DData [1, 25, 0, 0, 0, 1, 0, 0, 0, 0, 1, 8, 0, 0, 0, 123, 34, 105, 100, 34, 58, 49, 125,
             177, 0] 0)
     demultiplexStream =
   Some (None, demultiplexStream \<lparr> inputEnded := True,
                                    callbacks := [CbError CRCValidationError] \<rparr>)
   \<and> demuxRun crc16_ccitt (\<lambda>b. Some b) False
          [DData [1, 25, 0, 0, 0, 1, 0, 0, 0, 0, 1, 8, 0, 0, 0, 123, 34, 105, 100, 34, 58, 49, 125,
             177, 0] 0, DEnd, DOnError 0]
          demultiplexStream = None
   \<and> demuxRun crc16_ccitt (\<lambda>b. Some b) False
          [DData [1, 25, 0, 0, 0, 1, 0, 0, 0, 0, 1, 8, 0, 0, 0, 123, 34, 105, 100, 34, 58, 49, 125,
             177, 0] 0, DEnd, DFinish]
          demultiplexStream =
       Some (None, demultiplexStream \<lparr> inputEnded := True, inputFinished := True,
                                        callbacks := [CbError CRCValidationError] \<rparr>)"
proof -
  let ?H = "[1, 25, 0, 0, 0, 1, 0, 0, 0, 0, 1, 8, 0, 0, 0, 123, 34, 105, 100, 34, 58, 49, 125,
             177, 0] :: buffer"
  let ?head = "\<lparr> h_protocolVersion = 1, h_headerLen = 25, h_numStreams = 1,
        h_startTime = [0, 0, 0, 0],
        h_meta = [\<lparr> m_streamId = 1, m_metaString = [123, 34, 105, 100, 34, 58, 49, 125] \<rparr>],
        h_crc = 177 \<rparr>"
  let ?ini = "demultiplexStream :: buffer dstate"
  have h1: "\<not> parsedHead ?ini" by (simp add: demultiplexStream_def)
  have h2: "headParser_parse (buffered ?ini @ ?H) = Some ?head"
    by (simp add: demultiplexStream_def readUInt32LE_def readUInt16LE_def)
  have h3: "h_crc ?head \<noteq> crc16_ccitt (slice (buffered ?ini @ ?H) 5 (h_headerLen ?head - 2)) 0"
    by (simp add: demultiplexStream_def slice_def jsIndex_def crc16_ccitt_def crcByte_def
        crcShift_def)
  note t = header_checksum_mismatch [of ?ini ?H ?head crc16_ccitt "\<lambda>b. Some b" False 0,
      OF h1 h2 h3]
  have a: "demuxStep crc16_ccitt (\<lambda>b. Some b) False (DData ?H 0) ?ini =
             Some (None, ?ini \<lparr> inputEnded := True, callbacks := [CbError CRCValidationError] \<rparr>)"
    using t by (simp add: demultiplexStream_def sliceFrom_def jsIndex_def)
  have b: "demuxRun crc16_ccitt (\<lambda>b. Some b) False [DData ?H 0, DEnd, DOnError 0] ?ini = None"
    by (simp only: demuxRun.simps a option.case prod.case) (simp add: demultiplexStream_def)
  have c: "demuxRun crc16_ccitt (\<lambda>b. Some b) False [DData ?H 0, DEnd, DFinish] ?ini =
       Some (None, ?ini \<lparr> inputEnded := True, inputFinished := True,
                           callbacks := [CbError CRCValidationError] \<rparr>)"
    by (simp only: demuxRun.simps a option.case prod.case)
       (simp add: demultiplexStream_def endStreams_def dictValues_def)
  show ?thesis using a b c by blast
qed

text \<open>
  Against claim C4 as stated: the input emits a second buffer after the one with the
  bad header. When the second buffer is a good header, the callback is called a
  second time, with a stream that has been created; when it is the bad header
  again, the callback is called with the error a second time.
\<close>

theorem header_error_not_latched_counterexample:
  "demuxRun crc16_ccitt (\<lambda>b. Some b) False
     [DData [1, 25, 0, 0, 0, 1, 0, 0, 0, 0, 1, 8, 0, 0, 0, 123, 34, 105, 100, 34, 58, 49, 125,
             177, 0] 0,
      DData [1, 25, 0, 0, 0, 1, 0, 0, 0, 0, 1, 8, 0, 0, 0, 123, 34, 105, 100, 34, 58, 49, 125,
             176, 0] 1]
     demultiplexStream =
   Some (None, demultiplexStream \<lparr> parsedHead := True, sinks := [newPassThrough],
            streamDict := [(1, 0)], immediates := 1,
            callbacks := [CbError CRCValidationError,
                          CbReady [0] [[123, 34, 105, 100, 34, 58, 49, 125]]],
            inputEnded := True \<rparr>)
   \<and> demuxRun crc16_ccitt (\<lambda>b. Some b) False
     [DData [1, 25, 0, 0, 0, 1, 0, 0, 0, 0, 1, 8, 0, 0, 0, 123, 34, 105, 100, 34, 58, 49, 125,
             177, 0] 0,
      DData [1, 25, 0, 0, 0, 1, 0, 0, 0, 0, 1, 8, 0, 0, 0, 123, 34, 105, 100, 34, 58, 49, 125,
             177, 0] 1]
     demultiplexStream =
   Some (None, demultiplexStream \<lparr>
            callbacks := [CbError CRCValidationError, CbError CRCValidationError],
            inputEnded := True \<rparr>)"
  by (simp add: demultiplexStream_def parseBufferWrapped_def parseBuffer_def parseHead_def
      headParserWrapped_def wrapFnException_def Let_def readUInt32LE_def readUInt16LE_def
      slice_def sliceFrom_def jsIndex_def crc_header_body_1 zipObject_def processChunks_def
      newPassThrough_def)

text \<open>
  Claim C5, as the code has it. The header has been parsed, with distinct stream ids
  \<open>ks\<close>, so that the dictionary holds every stream the header made (those from
  \<open>b\<close> on). The input emits a buffer that completes well-formed frames \<open>fs\<close>, whose
  control frames agree with the running checksum, followed by a control frame whose
  checksum field differs from the running checksum. The handler leaves what has been
  written to the streams and which of them are ended as they were, and does not
  call the callback. When every stream of the dictionary has an \<^verbatim>\<open>error\<close> listener, each of
  them gets the checksum error as one more \<^verbatim>\<open>error\<close> event, the other streams
  get nothing, and the input is ended; the input can then emit \<^verbatim>\<open>finish\<close>, whose
  handler ends every stream of the dictionary. When one of them has no listener,
  \<^verbatim>\<open>emit\<close> throws: the checksum error leaves the \<^verbatim>\<open>data\<close> listener uncaught, the
  input is not ended, and the streams without a listener are untouched.
\<close>

theorem chunk_checksum_mismatch:
  assumes "parsedHead st" "\<not> inputFinished st"
    and "streamDict st = zipObject ks [b..<b + length ks]" "distinct ks"
    and "b + length ks \<le> length (sinks st)"
    and "list_all (wfChunk 255) fs" "frameChain crc16 (chunksCrc st) fs"
    and "0 \<le> offset" "offset \<le> 65535"
    and "w \<noteq> foldl (\<lambda>c f. crc16 (encChunk f) c) (chunksCrc st) fs"
    and "buffered st @ data = concat (map encChunk fs) @ controlFrame offset w @ rest"
  shows "\<exists>r st2.
     demuxStep crc16 parseJSON useRealOffsets (DData data now) st = Some (r, st2) \<and>
     callbacks st2 = callbacks st \<and> length (sinks st2) = length (sinks st) \<and>
     (\<forall>i < length (sinks st). written (sinks st2 ! i) = written (sinks st ! i) \<and>
                               ended (sinks st2 ! i) = ended (sinks st ! i)) \<and>
     (if \<forall>i \<in> {b..<b + length ks}. i \<in> errorListeners st
      then r = None \<and> inputEnded st2 \<and>
           (\<forall>i < length (sinks st).
              errorEvents (sinks st2 ! i) =
                errorEvents (sinks st ! i) @
                  (if b \<le> i \<and> i < b + length ks then [CRCValidationError] else [])) \<and>
           (\<exists>st3. demuxStep crc16 parseJSON useRealOffsets DFinish st2 = Some (None, st3) \<and>
                  length (sinks st3) = length (sinks st) \<and>
                  (\<forall>i < length (sinks st).
                     ended (sinks st3 ! i) =
                       (ended (sinks st ! i) \<or> b \<le> i \<and> i < b + length ks) \<and>
                     written (sinks st3 ! i) = written (sinks st ! i) \<and>
                     errorEvents (sinks st3 ! i) = errorEvents (sinks st2 ! i)))
      else r = Some CRCValidationError \<and> inputEnded st2 = inputEnded st \<and>
           (\<forall>i < length (sinks st). i \<notin> errorListeners st \<longrightarrow> sinks st2 ! i = sinks st ! i))"
proof -
  let ?e = CRCValidationError
  let ?stb = "st \<lparr> buffered := buffered st @ data \<rparr>"
  let ?st1 = "?stb \<lparr> unprocessedChunks := unprocessedChunks ?stb @ dataChunks fs,
                     chunksCrc := foldl (\<lambda>c f. crc16 (encChunk f) c) (chunksCrc ?stb) fs,
                     buffered := controlFrame offset w @ rest \<rparr>"
  let ?vs = "dictValues (streamDict st)"
  have pl: "parseLoop crc16 ?stb = (Some ?e, ?st1)"
    using assms(6-11) by (intro parseLoop_bad_after [of 255]) simp_all
  have ne: "buffered ?stb \<noteq> []"
    using assms(11) by (simp add: controlFrame_def)
  have pb: "parseBuffer crc16 parseJSON useRealOffsets now ?stb = (Some ?e, ?st1)"
    using assms(1) ne pl by (simp add: parseBuffer_def)
  have step: "demuxStep crc16 parseJSON useRealOffsets (DData data now) st =
          Some (case broadcastError ?e ?st1 of
                  (Some x, st2) \<Rightarrow> (Some x, st2)
                | (None, st2) \<Rightarrow> (None, st2 \<lparr> inputEnded := True \<rparr>))"
    using assms(1) pb by (simp add: parseBufferWrapped_def)
  have be: "broadcastError ?e ?st1 = emitErrors ?e ?vs ?st1"
    by (simp add: broadcastError_def)
  have dv: "set ?vs = {b..<b + length ks}" "distinct ?vs"
    using dictValues_zip [OF assms(4), of "[b..<b + length ks]"] assms(3) by simp_all
  have inr: "\<forall>i \<in> set ?vs. i < length (sinks ?st1)"
    using dv(1) assms(5) by simp
  show ?thesis
  proof (cases "\<forall>i \<in> {b..<b + length ks}. i \<in> errorListeners st")
    case True
    let ?f = "fold (updateSink (sinkEmitError ?e)) ?vs ?st1"
    define st2 where "st2 = ?f \<lparr> inputEnded := True \<rparr>"
    have "\<forall>i \<in> set ?vs. i \<in> errorListeners ?st1" using True dv(1) by simp
    then have em: "emitErrors ?e ?vs ?st1 = (None, ?f)" by (rule emitErrors_all)
    have fr: "?f = ?st1 \<lparr> sinks := sinks ?f \<rparr>" by (rule fold_updateSink_frame)
    note fs = fold_updateSink_sinks [OF dv(2) inr, of "sinkEmitError ?e"]
    have s2: "demuxStep crc16 parseJSON useRealOffsets (DData data now) st = Some (None, st2)"
      using step be em by (simp add: st2_def)
    have c2: "callbacks st2 = callbacks st" "streamDict st2 = streamDict st"
      "inputFinished st2 = inputFinished st" "inputEnded st2"
      unfolding st2_def by (subst fr, simp)+
    have l2: "length (sinks st2) = length (sinks st)" using fs by (simp add: st2_def)
    have p2: "sinks st2 ! i =
                (if b \<le> i \<and> i < b + length ks then sinkEmitError ?e (sinks st ! i)
                 else sinks st ! i)" if "i < length (sinks st)" for i
      using fs that dv(1) by (simp add: st2_def)
    define st3 where "st3 = (fold (updateSink sinkEnd) ?vs st2) \<lparr> inputFinished := True \<rparr>"
    have inr2: "\<forall>i \<in> set ?vs. i < length (sinks st2)" using inr l2 by simp
    note gs = fold_updateSink_sinks [OF dv(2) inr2, of sinkEnd]
    have es: "endStreams st2 = fold (updateSink sinkEnd) ?vs st2"
      using c2(2) by (simp add: endStreams_def)
    have s3: "demuxStep crc16 parseJSON useRealOffsets DFinish st2 = Some (None, st3)"
      using c2(3,4) assms(2) es by (simp add: st3_def)
    have l3: "length (sinks st3) = length (sinks st)"
      using gs l2 by (simp add: st3_def)
    have p3: "sinks st3 ! i =
                (if b \<le> i \<and> i < b + length ks then sinkEnd (sinks st2 ! i)
                 else sinks st2 ! i)" if "i < length (sinks st)" for i
      using gs that dv(1) l2 by (simp add: st3_def)
    have a: "\<forall>i < length (sinks st). written (sinks st2 ! i) = written (sinks st ! i) \<and>
                               ended (sinks st2 ! i) = ended (sinks st ! i)"
      using p2 by (simp add: sinkEmitError_def)
    have b: "\<forall>i < length (sinks st).
              errorEvents (sinks st2 ! i) =
                errorEvents (sinks st ! i) @
                  (if b \<le> i \<and> i < b + length ks then [?e] else [])"
      using p2 by (simp add: sinkEmitError_def)
    have c: "\<forall>i < length (sinks st).
                     ended (sinks st3 ! i) =
                       (ended (sinks st ! i) \<or> b \<le> i \<and> i < b + length ks) \<and>
                     written (sinks st3 ! i) = written (sinks st ! i) \<and>
                     errorEvents (sinks st3 ! i) = errorEvents (sinks st2 ! i)"
    proof (intro allI impI)
      fix i assume i: "i < length (sinks st)"
      from p3 [OF i] a [rule_format, OF i]
      show "ended (sinks st3 ! i) =
                       (ended (sinks st ! i) \<or> b \<le> i \<and> i < b + length ks) \<and>
                     written (sinks st3 ! i) = written (sinks st ! i) \<and>
                     errorEvents (sinks st3 ! i) = errorEvents (sinks st2 ! i)"
        by (auto simp: sinkEnd_def)
    qed
    have d: "\<exists>st3. demuxStep crc16 parseJSON useRealOffsets DFinish st2 = Some (None, st3) \<and>
                  length (sinks st3) = length (sinks st) \<and>
                  (\<forall>i < length (sinks st).
                     ended (sinks st3 ! i) =
                       (ended (sinks st ! i) \<or> b \<le> i \<and> i < b + length ks) \<and>
                     written (sinks st3 ! i) = written (sinks st ! i) \<and>
                     errorEvents (sinks st3 ! i) = errorEvents (sinks st2 ! i))"
      using s3 l3 c by blast
    have "demuxStep crc16 parseJSON useRealOffsets (DData data now) st = Some (None, st2) \<and>
     callbacks st2 = callbacks st \<and> length (sinks st2) = length (sinks st) \<and>
     (\<forall>i < length (sinks st). written (sinks st2 ! i) = written (sinks st ! i) \<and>
                               ended (sinks st2 ! i) = ended (sinks st ! i)) \<and>
     (None = (None :: error option) \<and> inputEnded st2 \<and>
           (\<forall>i < length (sinks st).
              errorEvents (sinks st2 ! i) =
                errorEvents (sinks st ! i) @
                  (if b \<le> i \<and> i < b + length ks then [CRCValidationError] else [])) \<and>
           (\<exists>st3. demuxStep crc16 parseJSON useRealOffsets DFinish st2 = Some (None, st3) \<and>
                  length (sinks st3) = length (sinks st) \<and>
                  (\<forall>i < length (sinks st).
                     ended (sinks st3 ! i) =
                       (ended (sinks st ! i) \<or> b \<le> i \<and> i < b + length ks) \<and>
                     written (sinks st3 ! i) = written (sinks st ! i) \<and>
                     errorEvents (sinks st3 ! i) = errorEvents (sinks st2 ! i))))"
      using s2 c2(1,4) l2 a b d by blast
    then show ?thesis
      unfolding if_P [OF True] by blast
  next
    case False
    then have "\<exists>i \<in> set ?vs. i \<notin> errorListeners ?st1" using dv(1) by simp
    from emitErrors_some [OF this, of ?e] obtain st2 where em:
      "emitErrors ?e ?vs ?st1 = (Some ?e, st2)" "st2 = ?st1 \<lparr> sinks := sinks st2 \<rparr>"
      "length (sinks st2) = length (sinks ?st1)"
      "\<forall>i < length (sinks ?st1).
          written (sinks st2 ! i) = written (sinks ?st1 ! i) \<and>
          ended (sinks st2 ! i) = ended (sinks ?st1 ! i) \<and>
          (i \<notin> errorListeners ?st1 \<longrightarrow> sinks st2 ! i = sinks ?st1 ! i)"
      by blast
    have s2: "demuxStep crc16 parseJSON useRealOffsets (DData data now) st = Some (Some ?e, st2)"
      using step be em(1) by simp
    have c2: "callbacks st2 = callbacks st" "inputEnded st2 = inputEnded st"
      by (subst em(2), simp)+
    have "demuxStep crc16 parseJSON useRealOffsets (DData data now) st = Some (Some ?e, st2) \<and>
     callbacks st2 = callbacks st \<and> length (sinks st2) = length (sinks st) \<and>
     (\<forall>i < length (sinks st). written (sinks st2 ! i) = written (sinks st ! i) \<and>
                               ended (sinks st2 ! i) = ended (sinks st ! i)) \<and>
     (Some ?e = Some CRCValidationError \<and> inputEnded st2 = inputEnded st \<and>
           (\<forall>i < length (sinks st). i \<notin> errorListeners st \<longrightarrow> sinks st2 ! i = sinks st ! i))"
      using s2 c2 em(3,4) by simp
    then show ?thesis
      unfolding if_not_P [OF False] by blast
  qed
qed

theorem chunk_checksum_mismatch_witness:
  "\<exists>st st2 st3.
     demuxRun crc16_ccitt (\<lambda>b. Some b) False
       [DData [1, 38, 0, 0, 0, 2, 0, 0, 0, 0, 1, 8, 0, 0, 0, 123, 34, 105, 100, 34, 58, 49, 125,
             2, 8, 0, 0, 0, 123, 34, 105, 100, 34, 58, 50, 125, 124, 27] 0, DOnError 0, DOnError 1] demultiplexStream = Some (None, st) \<and>
     demuxStep crc16_ccitt (\<lambda>b. Some b) False
       (DData [2, 5, 0, 1, 65, 0, 10, 0, 99, 99] 7) st = Some (None, st2) \<and>
     inputEnded st2 \<and> length (sinks st2) = 2 \<and>
     errorEvents (sinks st2 ! 0) = [CRCValidationError] \<and>
     errorEvents (sinks st2 ! 1) = [CRCValidationError] \<and>
     \<not> ended (sinks st2 ! 0) \<and> \<not> ended (sinks st2 ! 1) \<and>
     demuxStep crc16_ccitt (\<lambda>b. Some b) False DFinish st2 = Some (None, st3) \<and>
     ended (sinks st3 ! 0) \<and> ended (sinks st3 ! 1)"
proof -
  let ?st = "(demultiplexStream :: buffer dstate) \<lparr> parsedHead := True,
            sinks := [newPassThrough, newPassThrough],
            streamDict := [(1, 0), (2, 1)], immediates := 1,
            callbacks := [CbReady [0, 1] [[123, 34, 105, 100, 34, 58, 49, 125],
                                          [123, 34, 105, 100, 34, 58, 50, 125]]],
            errorListeners := {1, 0} \<rparr>"
  have run: "demuxRun crc16_ccitt (\<lambda>b. Some b) False
       [DData [1, 38, 0, 0, 0, 2, 0, 0, 0, 0, 1, 8, 0, 0, 0, 123, 34, 105, 100, 34, 58, 49, 125,
             2, 8, 0, 0, 0, 123, 34, 105, 100, 34, 58, 50, 125, 124, 27] 0, DOnError 0, DOnError 1] demultiplexStream = Some (None, ?st)"
    by (simp only: demuxRun.simps header2_step option.case prod.case)
       (simp add: demultiplexStream_def)
  have h: "parsedHead ?st" "\<not> inputFinished ?st"
    "streamDict ?st = zipObject [1, 2] [0..<0 + length [1, 2 :: nat]]"
    "distinct [1, 2 :: nat]" "0 + length [1, 2 :: nat] \<le> length (sinks ?st)"
    "list_all (wfChunk 255) [DataChunk 2 5 [65]]"
    "frameChain crc16_ccitt (chunksCrc ?st) [DataChunk 2 5 [65]]"
    "(0 :: int) \<le> 10" "(10 :: int) \<le> 65535"
    "25443 \<noteq> foldl (\<lambda>c f. crc16_ccitt (encChunk f) c) (chunksCrc ?st) [DataChunk 2 5 [65]]"
    "buffered ?st @ [2, 5, 0, 1, 65, 0, 10, 0, 99, 99] =
       concat (map encChunk [DataChunk 2 5 [65]]) @ controlFrame 10 25443 @ []"
    by (simp_all add: demultiplexStream_def zipObject_def wfChunk_def dataFrame_def
        controlFrame_def crc_frame_2_5_A upt_rec)
  have cond: "\<forall>i \<in> {0..<0 + length [1, 2 :: nat]}. i \<in> errorListeners ?st"
    by (auto simp: demultiplexStream_def)
  note t0 = chunk_checksum_mismatch [of ?st "[1, 2]" 0 "[DataChunk 2 5 [65]]" crc16_ccitt 10 25443
      "[2, 5, 0, 1, 65, 0, 10, 0, 99, 99]" "[]" "\<lambda>b. Some b" False 7, OF h]
  from t0 [unfolded if_P [OF cond]]
  obtain r st2 where t:
    "demuxStep crc16_ccitt (\<lambda>b. Some b) False
       (DData [2, 5, 0, 1, 65, 0, 10, 0, 99, 99] 7) ?st = Some (r, st2)"
    "length (sinks st2) = length (sinks ?st)"
    "\<forall>i < length (sinks ?st). written (sinks st2 ! i) = written (sinks ?st ! i) \<and>
                               ended (sinks st2 ! i) = ended (sinks ?st ! i)"
    "r = None \<and> inputEnded st2 \<and>
           (\<forall>i < length (sinks ?st).
              errorEvents (sinks st2 ! i) =
                errorEvents (sinks ?st ! i) @
                  (if 0 \<le> i \<and> i < 0 + length [1, 2 :: nat] then [CRCValidationError] else [])) \<and>
           (\<exists>st3. demuxStep crc16_ccitt (\<lambda>b. Some b) False DFinish st2 = Some (None, st3) \<and>
                  length (sinks st3) = length (sinks ?st) \<and>
                  (\<forall>i < length (sinks ?st).
                     ended (sinks st3 ! i) =
                       (ended (sinks ?st ! i) \<or> 0 \<le> i \<and> i < 0 + length [1, 2 :: nat]) \<and>
                     written (sinks st3 ! i) = written (sinks ?st ! i) \<and>
                     errorEvents (sinks st3 ! i) = errorEvents (sinks st2 ! i)))"
    by blast
  from t(4) obtain st3 where u:
    "demuxStep crc16_ccitt (\<lambda>b. Some b) False DFinish st2 = Some (None, st3)"
    "\<forall>i < length (sinks ?st).
                     ended (sinks st3 ! i) =
                       (ended (sinks ?st ! i) \<or> 0 \<le> i \<and> i < 0 + length [1, 2 :: nat])"
    by blast
  have l: "length (sinks ?st) = 2" by simp
  have "errorEvents (sinks st2 ! 0) = [CRCValidationError]"
       "errorEvents (sinks st2 ! 1) = [CRCValidationError]"
       "\<not> ended (sinks st2 ! 0)" "\<not> ended (sinks st2 ! 1)"
       "ended (sinks st3 ! 0)" "ended (sinks st3 ! 1)"
    using t(3,4) u(2) unfolding l by (simp_all add: newPassThrough_def)
  then show ?thesis
    using run t(1,2,4) u(1) by (intro exI[of _ ?st] exI[of _ st2] exI[of _ st3]) simp
qed

text \<open>
  Against claim C5 as stated. First run: two streams, no \<^verbatim>\<open>error\<close> listener, one
  data frame and then a control frame with a wrong checksum; the checksum error is
  thrown out of the \<^verbatim>\<open>data\<close> listener, no stream has an \<^verbatim>\<open>error\<close> event, and the
  input is not ended. Second run: a header that declares the stream id 1 twice,
  listeners on both streams; only the second stream is in the dictionary, and the
  first gets no \<^verbatim>\<open>error\<close> event and is still open after the input has finished.
\<close>

theorem unheard_checksum_error_counterexample:
  "demuxRun crc16_ccitt (\<lambda>b. Some b) False
     [DData [1, 38, 0, 0, 0, 2, 0, 0, 0, 0, 1, 8, 0, 0, 0, 123, 34, 105, 100, 34, 58, 49, 125,
             2, 8, 0, 0, 0, 123, 34, 105, 100, 34, 58, 50, 125, 124, 27] 0,
      DData [2, 5, 0, 1, 65, 0, 10, 0, 99, 99] 7]
     demultiplexStream =
   Some (Some CRCValidationError,
         demultiplexStream \<lparr> buffered := [0, 10, 0, 99, 99], parsedHead := True,
            sinks := [newPassThrough, newPassThrough],
            streamDict := [(1, 0), (2, 1)],
            unprocessedChunks := [DataChunk 2 5 [65]], chunksCrc := 37650,
            immediates := 1,
            callbacks := [CbReady [0, 1] [[123, 34, 105, 100, 34, 58, 49, 125],
                                          [123, 34, 105, 100, 34, 58, 50, 125]]] \<rparr>)
   \<and> demuxRun crc16_ccitt (\<lambda>b. Some b) False
     [DData [1, 38, 0, 0, 0, 2, 0, 0, 0, 0, 1, 8, 0, 0, 0, 123, 34, 105, 100, 34, 58, 49, 125,
             1, 8, 0, 0, 0, 123, 34, 105, 100, 34, 58, 49, 125, 138, 129] 0,
      DOnError 0, DOnError 1,
      DData [0, 10, 0, 99, 99] 7, DFinish]
     demultiplexStream =
   Some (None,
         demultiplexStream \<lparr> buffered := [0, 10, 0, 99, 99], parsedHead := True,
            sinks := [newPassThrough,
                      \<lparr> written = [], errorEvents = [CRCValidationError], ended = True \<rparr>],
            streamDict := [(1, 0), (1, 1)],
            immediates := 1,
            callbacks := [CbReady [0, 1] [[123, 34, 105, 100, 34, 58, 49, 125],
                                          [123, 34, 105, 100, 34, 58, 49, 125]]],
            errorListeners := {1, 0}, inputEnded := True, inputFinished := True \<rparr>)"
proof -
  let ?s1 = "(demultiplexStream :: buffer dstate) \<lparr> parsedHead := True,
            sinks := [newPassThrough, newPassThrough],
            streamDict := [(1, 0), (2, 1)], immediates := 1,
            callbacks := [CbReady [0, 1] [[123, 34, 105, 100, 34, 58, 49, 125],
                                          [123, 34, 105, 100, 34, 58, 50, 125]]] \<rparr>"
  let ?s1b = "?s1 \<lparr> buffered := buffered ?s1 @ [2, 5, 0, 1, 65, 0, 10, 0, 99, 99] \<rparr>"
  have pl: "parseLoop crc16_ccitt ?s1b =
           (Some CRCValidationError,
            ?s1b \<lparr> unprocessedChunks := unprocessedChunks ?s1b @ [DataChunk 2 5 [65]],
                 chunksCrc := 37650, buffered := [0, 10, 0, 99, 99] \<rparr>)"
    by (rule bad_frame_after_data) (simp_all add: demultiplexStream_def)
  have a: "demuxRun crc16_ccitt (\<lambda>b. Some b) False
     [DData [1, 38, 0, 0, 0, 2, 0, 0, 0, 0, 1, 8, 0, 0, 0, 123, 34, 105, 100, 34, 58, 49, 125,
             2, 8, 0, 0, 0, 123, 34, 105, 100, 34, 58, 50, 125, 124, 27] 0,
      DData [2, 5, 0, 1, 65, 0, 10, 0, 99, 99] 7]
     demultiplexStream =
   Some (Some CRCValidationError,
         demultiplexStream \<lparr> buffered := [0, 10, 0, 99, 99], parsedHead := True,
            sinks := [newPassThrough, newPassThrough],
            streamDict := [(1, 0), (2, 1)],
            unprocessedChunks := [DataChunk 2 5 [65]], chunksCrc := 37650,
            immediates := 1,
            callbacks := [CbReady [0, 1] [[123, 34, 105, 100, 34, 58, 49, 125],
                                          [123, 34, 105, 100, 34, 58, 50, 125]]] \<rparr>)"
    using pl
    by (simp only: demuxRun.simps header2_step option.case prod.case)
       (simp add: parseBufferWrapped_def parseBuffer_def broadcastError_def dictValues_def
          dictGet_def emitError_def demultiplexStream_def)
  let ?d1 = "(demultiplexStream :: buffer dstate) \<lparr> parsedHead := True,
            sinks := [newPassThrough, newPassThrough],
            streamDict := [(1, 0), (1, 1)], immediates := 1,
            callbacks := [CbReady [0, 1] [[123, 34, 105, 100, 34, 58, 49, 125],
                                          [123, 34, 105, 100, 34, 58, 49, 125]]],
            errorListeners := {1, 0} \<rparr>"
  let ?d1b = "?d1 \<lparr> buffered := buffered ?d1 @ [0, 10, 0, 99, 99] \<rparr>"
  have hd: "demuxStep crc16_ccitt (\<lambda>b. Some b) False (DData [1, 38, 0, 0, 0, 2, 0, 0, 0, 0, 1, 8, 0, 0, 0, 123, 34, 105, 100, 34, 58, 49, 125,
             1, 8, 0, 0, 0, 123, 34, 105, 100, 34, 58, 49, 125, 138, 129] 0)
     (demultiplexStream :: buffer dstate) =
   Some (None, demultiplexStream \<lparr> parsedHead := True,
            sinks := [newPassThrough, newPassThrough],
            streamDict := [(1, 0), (1, 1)], immediates := 1,
            callbacks := [CbReady [0, 1] [[123, 34, 105, 100, 34, 58, 49, 125],
                                          [123, 34, 105, 100, 34, 58, 49, 125]]] \<rparr>)"
    by (simp add: header_eval crc_header_body_dup)
  have pd: "parseLoop crc16_ccitt ?d1b = (Some CRCValidationError, ?d1b)"
    by (rule parseLoop_ctrl_bad [of _ 10 25443 "[]"])
       (simp_all add: demultiplexStream_def controlFrame_def)
  have b: "demuxRun crc16_ccitt (\<lambda>b. Some b) False
     [DData [1, 38, 0, 0, 0, 2, 0, 0, 0, 0, 1, 8, 0, 0, 0, 123, 34, 105, 100, 34, 58, 49, 125,
             1, 8, 0, 0, 0, 123, 34, 105, 100, 34, 58, 49, 125, 138, 129] 0,
      DOnError 0, DOnError 1,
      DData [0, 10, 0, 99, 99] 7, DFinish]
     demultiplexStream =
   Some (None,
         demultiplexStream \<lparr> buffered := [0, 10, 0, 99, 99], parsedHead := True,
            sinks := [newPassThrough,
                      \<lparr> written = [], errorEvents = [CRCValidationError], ended = True \<rparr>],
            streamDict := [(1, 0), (1, 1)],
            immediates := 1,
            callbacks := [CbReady [0, 1] [[123, 34, 105, 100, 34, 58, 49, 125],
                                          [123, 34, 105, 100, 34, 58, 49, 125]]],
            errorListeners := {1, 0}, inputEnded := True, inputFinished := True \<rparr>)"
    using pd
    by (simp only: demuxRun.simps hd option.case prod.case)
       (simp add: parseBufferWrapped_def parseBuffer_def broadcastError_def dictValues_def
          dictGet_def emitError_def demultiplexStream_def updateSink_def sinkEmitError_def
          newPassThrough_def endStreams_def sinkEnd_def)
  show ?thesis using a b by blast
qed

text \<open>
  Claim C10. When the frame at the head of the queue is a data frame whose stream id is
  not a key of the stream dictionary, the delivery step takes it off the queue and
  throws a type error at the write. Run from the timer, \<^verbatim>\<open>processChunks\<close> lets it
  escape; run from \<^verbatim>\<open>parseBuffer\<close>, the handler of \<^verbatim>\<open>parseBufferWrapped\<close> throws
  it again. The callback is not called and no stream sees an event.
\<close>

theorem undeclared_stream_crash:
  assumes "unprocessedChunks st = DataChunk sid offset d # rest" "sid \<noteq> 0"
    "sid \<notin> fst ` set (streamDict st)"
    "\<not> (lastChunkSent st \<noteq> None \<and> useRealOffsets \<and> now - the (lastChunkSent st) < offset)"
  shows "processChunks useRealOffsets now st =
           (Some TypeError, st \<lparr> chunkProcessor := None, unprocessedChunks := rest,
                                  lastChunkSent := Some now \<rparr>)
         \<and> (\<forall>st0. parsedHead st0 \<and> buffered st0 \<noteq> [] \<and> parseLoop crc16 st0 = (None, st) \<longrightarrow>
               parseBufferWrapped crc16 parseJSON useRealOffsets now st0 =
                 (Some TypeError, st \<lparr> chunkProcessor := None, unprocessedChunks := rest,
                                        lastChunkSent := Some now \<rparr>))"
proof -
  let ?st' = "st \<lparr> chunkProcessor := None, unprocessedChunks := rest, lastChunkSent := Some now \<rparr>"
  have g: "dictGet (streamDict st) sid = None"
    using assms(3) by (simp add: dictGet_None)
  have 1: "processChunks useRealOffsets now st = (Some TypeError, ?st')"
    using assms g by (auto simp: processChunks_def Let_def)
  have 2: "processChunks useRealOffsets now (st \<lparr> chunkProcessor := None \<rparr>) = (Some TypeError, ?st')"
    using assms g by (auto simp: processChunks_def Let_def)
  have 3: "parseBufferWrapped crc16 parseJSON useRealOffsets now st0 = (Some TypeError, ?st')"
    if h: "parsedHead st0" "buffered st0 \<noteq> []" "parseLoop crc16 st0 = (None, st)" for st0
  proof -
    have "parsedHead st" using h(1) by (subst parseLoop_frame [OF h(3)]) simp
    then have "parsedHead ?st'" by simp
    from parseBufferWrapped_type_error [OF h 2 this] show ?thesis .
  qed
  show ?thesis using 1 3 by blast
qed

theorem undeclared_stream_crash_witness:
  "parseBufferWrapped crc16_ccitt (\<lambda>b. Some b) False 0
     (demultiplexStream \<lparr> buffered := [7, 0, 0, 1, 65], parsedHead := True,
                            sinks := [newPassThrough], streamDict := [(1, 0)] \<rparr>) =
   (Some TypeError,
    demultiplexStream \<lparr> parsedHead := True, sinks := [newPassThrough], streamDict := [(1, 0)],
                          chunksCrc := crc16_ccitt [7, 0, 0, 1, 65] 0,
                          lastChunkSent := Some 0 \<rparr>)"
proof -
  let ?ini = "(demultiplexStream :: buffer dstate)
                \<lparr> buffered := [7, 0, 0, 1, 65], parsedHead := True,
                  sinks := [newPassThrough], streamDict := [(1, 0)] \<rparr>"
  let ?fin = "(demultiplexStream :: buffer dstate)
               \<lparr> parsedHead := True, sinks := [newPassThrough], streamDict := [(1, 0)],
                 unprocessedChunks := [DataChunk 7 0 [65]],
                 chunksCrc := crc16_ccitt [7, 0, 0, 1, 65] 0 \<rparr>"
  have p: "parseLoop crc16_ccitt ?ini = (None, ?fin)"
    by (subst parseLoop_unfold, simp add: demultiplexStream_def readUInt16LE_def chunkBufSize_def
        slice_0 sliceFrom_drop, subst parseLoop_unfold, simp add: demultiplexStream_def)
  from undeclared_stream_crash [of ?fin 7 0 "[65]" "[]" False 0 crc16_ccitt "\<lambda>b. Some b"] p
  show ?thesis
    by (simp add: demultiplexStream_def)
qed

text \<open>
  Claim C2, as the code has it. Neither side resets its running checksum. In a run of
  the multiplexer (timed as for claim C7) every buffer written after the header
  encodes a control frame or the frames of one source buffer, with a stream id
  between 1 and \<open>n\<close>, so that the control frames are the buffers that start with
  the byte 0. Such a buffer is the control frame whose checksum field is the
  checksum folded over all the buffers written before it since the header, earlier
  control frames included and none of its own bytes; and the running checksum at the
  end is the checksum folded over all the buffers written, this frame included. The
  demultiplexer, meeting a control frame whose field equals its running checksum,
  folds the five bytes of the frame into the running checksum and goes on.
\<close>

theorem checksum_accumulator_is_carried:
  assumes "n \<le> 254" "0 \<le> maxDataGap" "maxDataGap + gap \<le> 65535" "ticked gap now now evs"
    "0 \<le> offset" "offset \<le> 65535"
    "buffered dst = controlFrame offset (chunksCrc dst) @ rest"
  shows "(\<exists>st0 st ws. multiplexStreams crc16 float32 n now = Inr st0 \<and>
            muxRun crc16 maxDataGap crcBufferSize evs st0 = Inr st \<and>
            out st = out st0 @ map enc ws \<and>
            list_all (wireOK n (maxDataGap + gap)) ws \<and>
            crcChain crc16 0 ws \<and>
            (\<forall>i < length ws. hd (enc (ws ! i)) = 0 \<longrightarrow>
               (\<exists>d. enc (ws ! i) =
                  controlFrame d (foldl (\<lambda>c b. crc16 b c) 0 (map enc (take i ws))))) \<and>
            crc st = foldl (\<lambda>c b. crc16 b c) 0 (map enc ws))
         \<and> parseLoop crc16 dst =
             parseLoop crc16
               (dst \<lparr> chunksCrc := crc16 (controlFrame offset (chunksCrc dst)) (chunksCrc dst),
                      buffered := rest \<rparr>)"
proof -
  obtain st0 where st0: "multiplexStreams crc16 float32 n now = Inr st0"
    using assms(1) by (simp add: multiplexStreams_ok)
  have c0: "crc st0 = 0" using st0 assms(1) by (auto simp: multiplexStreams_ok)
  have "muxInv crc16 n maxDataGap gap now now st0"
    using assms st0 by (intro muxInv_init) auto
  from muxRun_inv [OF this assms(4), of crcBufferSize] obtain st ws where r:
    "muxRun crc16 maxDataGap crcBufferSize evs st0 = Inr st" "extends crc16 st0 st ws"
    "list_all (wireOK n (maxDataGap + gap)) ws"
    by blast
  have ch: "crcChain crc16 0 ws" using r(2) c0 by (simp add: extends_def)
  have fld: "\<forall>i < length ws. hd (enc (ws ! i)) = 0 \<longrightarrow>
               (\<exists>d. enc (ws ! i) =
                  controlFrame d (foldl (\<lambda>c b. crc16 b c) 0 (map enc (take i ws))))"
  proof (intro allI impI)
    fix i assume i: "i < length ws" "hd (enc (ws ! i)) = 0"
    have "wireOK n (maxDataGap + gap) (ws ! i)"
      using r(3) i(1) by (simp add: list_all_length)
    from wire_first_byte [OF this assms(1)] i(2) obtain d w where x: "ws ! i = WCtrl d w"
      by blast
    from crcChain_nth [OF ch i(1) x]
    have "w = foldl (\<lambda>c b. crc16 b c) 0 (map enc (take i ws))" .
    then show "\<exists>d. enc (ws ! i) =
                  controlFrame d (foldl (\<lambda>c b. crc16 b c) 0 (map enc (take i ws)))"
      using x by auto
  qed
  have m: "\<exists>st0 st ws. multiplexStreams crc16 float32 n now = Inr st0 \<and>
            muxRun crc16 maxDataGap crcBufferSize evs st0 = Inr st \<and>
            out st = out st0 @ map enc ws \<and>
            list_all (wireOK n (maxDataGap + gap)) ws \<and>
            crcChain crc16 0 ws \<and>
            (\<forall>i < length ws. hd (enc (ws ! i)) = 0 \<longrightarrow>
               (\<exists>d. enc (ws ! i) =
                  controlFrame d (foldl (\<lambda>c b. crc16 b c) 0 (map enc (take i ws))))) \<and>
            crc st = foldl (\<lambda>c b. crc16 b c) 0 (map enc ws)"
  proof -
    have o: "out st = out st0 @ map enc ws"
      and cr: "crc st = foldl (\<lambda>c b. crc16 b c) 0 (map enc ws)"
      using r(2) c0 by (simp_all add: extends_def)
    show ?thesis
      apply (rule exI [of _ st0], rule exI [of _ st], rule exI [of _ ws])
      using st0 r(1,3) ch fld o cr by simp
  qed
  have d: "parseLoop crc16 dst =
             parseLoop crc16
               (dst \<lparr> chunksCrc := crc16 (controlFrame offset (chunksCrc dst)) (chunksCrc dst),
                      buffered := rest \<rparr>)"
    by (rule parseLoop_ctrl_step [OF assms(7,5,6) refl])
  show ?thesis using m d by blast
qed

theorem checksum_accumulator_is_carried_witness:
  "(\<exists>st0 st ws. multiplexStreams crc16_ccitt (\<lambda>t. 0) 1 0 = Inr st0 \<and>
      muxRun crc16_ccitt 60000 3 [Data 0 [65] 10 10, Data 0 [66] 20 20] st0 = Inr st \<and>
      out st = out st0 @ map enc ws \<and>
      map enc ws = [[1, 10, 0, 1, 65], [0, 0, 0, 46, 169], [1, 10, 0, 1, 66], [0, 0, 0, 69, 64]] \<and>
      crcChain crc16_ccitt 0 ws \<and>
      (\<exists>d. enc (ws ! 1) =
         controlFrame d (foldl (\<lambda>c b. crc16_ccitt b c) 0 (map enc (take 1 ws)))) \<and>
      (\<exists>d. enc (ws ! 3) =
         controlFrame d (foldl (\<lambda>c b. crc16_ccitt b c) 0 (map enc (take 3 ws)))) \<and>
      crc st = foldl (\<lambda>c b. crc16_ccitt b c) 0 (map enc ws) \<and> crc st = 31052)
   \<and> foldl (\<lambda>c b. crc16_ccitt b c) 0 [[1, 10, 0, 1, 65]] = 43310
   \<and> controlFrame 0 43310 = [0, 0, 0, 46, 169]
   \<and> foldl (\<lambda>c b. crc16_ccitt b c) 0
         [[1, 10, 0, 1, 65], [0, 0, 0, 46, 169], [1, 10, 0, 1, 66]] = 16453
   \<and> controlFrame 0 16453 = [0, 0, 0, 69, 64]
   \<and> parseLoop crc16_ccitt
         ((demultiplexStream :: buffer dstate)
            \<lparr> buffered := [0, 0, 0, 46, 169], parsedHead := True, chunksCrc := 43310 \<rparr>) =
       parseLoop crc16_ccitt
         ((demultiplexStream :: buffer dstate)
            \<lparr> buffered := [], parsedHead := True, chunksCrc := 5670 \<rparr>)"
proof -
  let ?evs = "[Data 0 [65] 10 10, Data 0 [66] 20 20]"
  let ?dst = "(demultiplexStream :: buffer dstate)
            \<lparr> buffered := [0, 0, 0, 46, 169], parsedHead := True, chunksCrc := 43310 \<rparr>"
  have h: "(1 :: nat) \<le> 254" "(0 :: int) \<le> 60000" "(60000 :: int) + 1000 \<le> 65535"
    "ticked 1000 0 0 ?evs" "(0 :: int) \<le> 0" "(0 :: int) \<le> 65535"
    "buffered ?dst = controlFrame 0 (chunksCrc ?dst) @ []"
    by (simp_all add: controlFrame_def)
  note t = checksum_accumulator_is_carried [of 1 60000 1000 0 ?evs 0 ?dst "[]" crc16_ccitt
      "\<lambda>t. 0" 3, OF h]
  from t obtain st0 st ws where m:
    "multiplexStreams crc16_ccitt (\<lambda>t. 0) 1 0 = Inr st0"
    "muxRun crc16_ccitt 60000 3 ?evs st0 = Inr st"
    "out st = out st0 @ map enc ws"
    "crcChain crc16_ccitt 0 ws"
    "\<forall>i < length ws. hd (enc (ws ! i)) = 0 \<longrightarrow>
         (\<exists>d. enc (ws ! i) =
            controlFrame d (foldl (\<lambda>c b. crc16_ccitt b c) 0 (map enc (take i ws))))"
    "crc st = foldl (\<lambda>c b. crc16_ccitt b c) 0 (map enc ws)"
    by blast
  from two_buffers_run [OF m(1)] m(2) have e:
    "out st = out st0 @ [[1, 10, 0, 1, 65], [0, 0, 0, 46, 169],
                         [1, 10, 0, 1, 66], [0, 0, 0, 69, 64]]"
    "crc st = 31052"
    by auto
  have w: "map enc ws = [[1, 10, 0, 1, 65], [0, 0, 0, 46, 169], [1, 10, 0, 1, 66], [0, 0, 0, 69, 64]]"
    using m(3) e(1) by simp
  have "length (map enc ws) = 4" by (simp add: w)
  then have l: "length ws = 4" by simp
  have n1: "enc (ws ! 1) = [0, 0, 0, 46, 169]" and n3: "enc (ws ! 3) = [0, 0, 0, 69, 64]"
    using w l nth_map [of 1 ws enc] nth_map [of 3 ws enc] by simp_all
  have f1: "\<exists>d. enc (ws ! 1) =
         controlFrame d (foldl (\<lambda>c b. crc16_ccitt b c) 0 (map enc (take 1 ws)))"
    using m(5) [rule_format, of 1] l n1 by simp
  have f3: "\<exists>d. enc (ws ! 3) =
         controlFrame d (foldl (\<lambda>c b. crc16_ccitt b c) 0 (map enc (take 3 ws)))"
    using m(5) [rule_format, of 3] l n3 by simp
  have a: "\<exists>st0 st ws. multiplexStreams crc16_ccitt (\<lambda>t. 0) 1 0 = Inr st0 \<and>
      muxRun crc16_ccitt 60000 3 ?evs st0 = Inr st \<and>
      out st = out st0 @ map enc ws \<and>
      map enc ws = [[1, 10, 0, 1, 65], [0, 0, 0, 46, 169], [1, 10, 0, 1, 66], [0, 0, 0, 69, 64]] \<and>
      crcChain crc16_ccitt 0 ws \<and>
      (\<exists>d. enc (ws ! 1) =
         controlFrame d (foldl (\<lambda>c b. crc16_ccitt b c) 0 (map enc (take 1 ws)))) \<and>
      (\<exists>d. enc (ws ! 3) =
         controlFrame d (foldl (\<lambda>c b. crc16_ccitt b c) 0 (map enc (take 3 ws)))) \<and>
      crc st = foldl (\<lambda>c b. crc16_ccitt b c) 0 (map enc ws) \<and> crc st = 31052"
    apply (rule exI [of _ st0], rule exI [of _ st], rule exI [of _ ws])
    using m(1-4,6) w e(2) f1 f3 by simp
  have b: "foldl (\<lambda>c b. crc16_ccitt b c) 0 [[1, 10, 0, 1, 65]] = 43310"
    "controlFrame 0 43310 = [0, 0, 0, 46, 169]"
    "foldl (\<lambda>c b. crc16_ccitt b c) 0
         [[1, 10, 0, 1, 65], [0, 0, 0, 46, 169], [1, 10, 0, 1, 66]] = 16453"
    "controlFrame 0 16453 = [0, 0, 0, 69, 64]"
    by (simp_all add: crc_frame_1_10_A crc_ctrl_after_A crc_frame_1_10_B controlFrame_def)
  have c: "parseLoop crc16_ccitt ?dst =
       parseLoop crc16_ccitt
         ((demultiplexStream :: buffer dstate)
            \<lparr> buffered := [], parsedHead := True, chunksCrc := 5670 \<rparr>)"
    using t [THEN conjunct2]
    by (simp add: demultiplexStream_def controlFrame_def crc_ctrl_after_A)
  show ?thesis using a b c by blast
qed

text \<open>
  Against claim C2 as stated: with no sources, the first firing of the interval
  writes a control frame; afterwards the running checksum is not 0, and the
  checksum field of the frame (0) is not the checksum of the frame's bytes before
  that field.
\<close>

theorem checksum_not_reset_counterexample:
  "(case thenE (multiplexStreams crc16_ccitt (\<lambda>t. 0) 0 0)
           (muxRun crc16_ccitt 60000 1500 [Tick 1000]) of
      Inl e \<Rightarrow> False
    | Inr st \<Rightarrow> crc st \<noteq> 0 \<and> drop 4 (out st) = [[0, 232, 3, 0, 0]] \<and>
                crc16_ccitt [0, 232, 3] 0 \<noteq> 0)"
  by (simp add: multiplexStreams_ok thenE_def maybeSendCrc_eq controlFrame_def
      crc16_ccitt_def crcByte_def crcShift_def)

section \<open>The round trip\<close>




end
